theory Spec2Isabelle
  imports Main "HOL-Library.Sublist" "HOL-Library.Multiset" "HOL-Library.AList"
begin

section \<open>Python string primitives\<close>

text \<open>
  Text is modelled as \<open>string\<close> (a list of 8-bit characters): a text is its UTF-8
  bytes.  The locators and the moves only ever test for ASCII markers, so a character
  beyond ASCII is just some bytes that match none of them.  \<open>s in t\<close> is contiguous
  containment, \<open>t.startswith(p)\<close> is the prefix test, \<open>content.split("\n")\<close> and
  \<open>"\n".join(lines)\<close> are written out.
\<close>

abbreviation NL :: char where
  "NL \<equiv> CHR 0x0A"

abbreviation CR :: char where
  "CR \<equiv> CHR 0x0D"

subsection \<open>The characters of a text\<close>

text \<open>
  The patterns \<open>\d\<close> and \<open>\s\<close> and the flag \<open>re.IGNORECASE\<close> look at characters, not
  at bytes.  \<open>chars_of\<close> cuts a text into its characters, each as the bytes that encode
  it: the first byte tells how many bytes there are.  \<open>cp_of\<close> is the code point of a
  character.  \<open>utf8_ok\<close> holds of the texts that are well-formed UTF-8, the only ones
  that \<open>read_text(encoding="utf-8")\<close> returns.
\<close>

definition utf8_len :: "char \<Rightarrow> nat" where
  "utf8_len c =
     (let b = (of_char c :: int) in
      if b < 0xC2 then 1 else if b < 0xE0 then 2 else if b < 0xF0 then 3
      else if b < 0xF5 then 4 else 1)"

function chars_of :: "string \<Rightarrow> string list" where
  "chars_of s =
     (if s = [] then []
      else take (utf8_len (hd s)) s # chars_of (drop (utf8_len (hd s)) s))"
  by pat_completeness auto
termination
  by (relation "measure length") (auto simp: utf8_len_def Let_def neq_Nil_conv)

declare chars_of.simps [simp del]

definition cp_of :: "string \<Rightarrow> int" where
  "cp_of ch =
     (case map of_char ch of
        [a] \<Rightarrow> a
      | [a, b] \<Rightarrow> (a - 0xC0) * 64 + (b - 0x80)
      | [a, b, c] \<Rightarrow> (a - 0xE0) * 4096 + (b - 0x80) * 64 + (c - 0x80)
      | [a, b, c, d] \<Rightarrow> (a - 0xF0) * 262144 + (b - 0x80) * 4096 + (c - 0x80) * 64 + (d - 0x80)
      | _ \<Rightarrow> 0)"

definition continuation :: "char \<Rightarrow> bool" where
  "continuation c \<longleftrightarrow> 0x80 \<le> (of_char c :: int) \<and> (of_char c :: int) < 0xC0"

definition utf8_char_ok :: "string \<Rightarrow> bool" where
  "utf8_char_ok ch \<longleftrightarrow>
     ch \<noteq> [] \<and> length ch = utf8_len (hd ch) \<and> list_all continuation (tl ch) \<and>
     (length ch = 1 \<longrightarrow> (of_char (hd ch) :: int) < 0x80) \<and>
     (length ch = 3 \<longrightarrow> 0x800 \<le> cp_of ch \<and> \<not> (0xD800 \<le> cp_of ch \<and> cp_of ch < 0xE000)) \<and>
     (length ch = 4 \<longrightarrow> 0x10000 \<le> cp_of ch \<and> cp_of ch < 0x110000)"

definition utf8_ok :: "string \<Rightarrow> bool" where
  "utf8_ok s \<longleftrightarrow> list_all utf8_char_ok (chars_of s)"


definition str_in :: "string \<Rightarrow> string \<Rightarrow> bool" where
  "str_in s t = sublist s t"

definition startswith :: "string \<Rightarrow> string \<Rightarrow> bool" where
  "startswith t p = prefix p t"

fun split_lines :: "string \<Rightarrow> string list" where
  "split_lines [] = [[]]"
| "split_lines (c # cs) =
     (if c = NL then [] # split_lines cs
      else (case split_lines cs of [] \<Rightarrow> [[c]] | l # ls \<Rightarrow> (c # l) # ls))"

fun join_lines :: "string list \<Rightarrow> string" where
  "join_lines [] = []"
| "join_lines [l] = l"
| "join_lines (l # ls) = l @ NL # join_lines ls"


section \<open>Record locator\<close>

subsection \<open>archive-task.py: \<open>find_task_in_file\<close>\<close>

text \<open>
  The test of the \<open>for\<close> loop: \<open>task_id in line and ("- [" in line or "##" in line)\<close>.
\<close>

definition at_task_line :: "string \<Rightarrow> string \<Rightarrow> bool" where
  "at_task_line task_id line \<longleftrightarrow>
     str_in task_id line \<and> (str_in ''- ['' line \<or> str_in ''##'' line)"

text \<open>
  \<open>for i, line in enumerate(lines)\<close>: the index runs beside the lines still to visit.
\<close>

fun at_find_loop :: "nat \<Rightarrow> string list \<Rightarrow> string \<Rightarrow> (nat \<times> string) option" where
  "at_find_loop i [] task_id = None"
| "at_find_loop i (line # rest) task_id =
     (if at_task_line task_id line then Some (i, line)
      else at_find_loop (Suc i) rest task_id)"

text \<open>
  The file is what \<open>read_text\<close> gives: \<open>None\<close> when it raises, and then the
  \<open>except\<close> branch returns \<open>None\<close>.
\<close>

definition at_find_task_in_file :: "string option \<Rightarrow> string \<Rightarrow> (nat \<times> string) option" where
  "at_find_task_in_file file task_id =
     (case file of
        None \<Rightarrow> None
      | Some content \<Rightarrow> at_find_loop 0 (split_lines content) task_id)"

subsection \<open>promote-task.py: \<open>find_task_in_file\<close>\<close>

definition pt_task_line :: "string \<Rightarrow> string \<Rightarrow> bool" where
  "pt_task_line task_id line \<longleftrightarrow>
     str_in task_id line \<and> (str_in ''####'' line \<or> str_in ''###'' line)"

text \<open>The negated guard of the \<open>while\<close> loop, on line \<open>lines[j]\<close>.\<close>

definition pt_stop_line :: "string \<Rightarrow> bool" where
  "pt_stop_line l \<longleftrightarrow>
     startswith l ''####'' \<or> startswith l ''###'' \<or> (startswith l ''- ['' \<and> str_in ''TASK-'' l)"

function pt_collect :: "string list \<Rightarrow> nat \<Rightarrow> string list \<Rightarrow> string list" where
  "pt_collect lines j task_lines =
     (if j < length lines \<and> \<not> pt_stop_line (lines ! j)
      then pt_collect lines (Suc j) (task_lines @ [lines ! j])
      else task_lines)"
  by pat_completeness auto
termination
  by (relation "measure (\<lambda>(lines, j, task_lines). length lines - j)") auto

declare pt_collect.simps [simp del]

fun pt_find_loop :: "string list \<Rightarrow> nat \<Rightarrow> string list \<Rightarrow> string \<Rightarrow> (nat \<times> string list) option" where
  "pt_find_loop lines i [] task_id = None"
| "pt_find_loop lines i (line # rest) task_id =
     (if pt_task_line task_id line then Some (i, pt_collect lines (Suc i) [line])
      else pt_find_loop lines (Suc i) rest task_id)"

definition pt_find_task_in_file :: "string option \<Rightarrow> string \<Rightarrow> (nat \<times> string list) option" where
  "pt_find_task_in_file file task_id =
     (case file of
        None \<Rightarrow> None
      | Some content \<Rightarrow>
          (let lines = split_lines content in pt_find_loop lines 0 lines task_id))"

subsection \<open>The record start of the specification\<close>

text \<open>
  This one definition follows the words of the specification, not the code: a line
  structurally starts a record when it is a heading line of any depth or a
  checklist-item line, read generously (leading blanks are allowed).  It is only used
  to compare the specification's locator with the code's.
\<close>

definition spec_record_start :: "string \<Rightarrow> bool" where
  "spec_record_start line \<longleftrightarrow>
     (let s = dropWhile (\<lambda>c. c = CHR '' '') line
      in startswith s ''#'' \<or> startswith s ''- ['')"


subsection \<open>archive-task.py: the record's lines in \<open>main\<close>\<close>

text \<open>
  \<open>for i in range(task_start + 1, len(lines))\<close>: the loop breaks at a line that starts
  with \<open>- [\<close>, or that starts with \<open>##\<close> and is not the line right after the start.
\<close>

function at_main_collect :: "string list \<Rightarrow> nat \<Rightarrow> nat \<Rightarrow> string list \<Rightarrow> string list" where
  "at_main_collect lines task_start i task_lines =
     (if i < length lines then
        (if startswith (lines ! i) ''- ['' \<or> (startswith (lines ! i) ''##'' \<and> i > task_start + 1)
         then task_lines
         else at_main_collect lines task_start (Suc i) (task_lines @ [lines ! i]))
      else task_lines)"
  by pat_completeness auto
termination
  by (relation "measure (\<lambda>(lines, task_start, i, task_lines). length lines - i)") auto

declare at_main_collect.simps [simp del]

text \<open>
  The body of the loop over the TODO files, for one file that exists: the start found
  by \<open>find_task_in_file\<close>, and the lines collected from the file read again.
\<close>

definition at_main_task_lines :: "string \<Rightarrow> string \<Rightarrow> (nat \<times> string list) option" where
  "at_main_task_lines content task_id =
     (case at_find_task_in_file (Some content) task_id of
        None \<Rightarrow> None
      | Some (task_start, line) \<Rightarrow>
          (let lines = split_lines content
           in Some (task_start,
                at_main_collect lines task_start (task_start + 1) [lines ! task_start])))"

subsection \<open>The record extent of the specification\<close>

text \<open>
  These definitions follow the words of the specification, to compare it with the
  code: the depth of a heading is its number of leading \<open>#\<close>; a line ends the record
  of a start line when it is a checklist-item start or a heading at the same or a
  shallower depth (any heading, when the start line is a checklist item); the range
  runs from the start line up to, and excluding, the first such line.
\<close>

definition spec_heading_depth :: "string \<Rightarrow> nat" where
  "spec_heading_depth l = length (takeWhile (\<lambda>c. c = CHR ''#'') l)"

definition spec_range_end :: "string \<Rightarrow> string \<Rightarrow> bool" where
  "spec_range_end start l \<longleftrightarrow>
     startswith l ''- ['' \<or>
     (0 < spec_heading_depth l \<and>
      (spec_heading_depth start = 0 \<or> spec_heading_depth l \<le> spec_heading_depth start))"

definition spec_range :: "string list \<Rightarrow> nat \<Rightarrow> string list" where
  "spec_range lines i =
     lines ! i # takeWhile (\<lambda>l. \<not> spec_range_end (lines ! i) l) (drop (Suc i) lines)"


section \<open>Files, directories and printed lines\<close>

text \<open>
  A path is its list of components.  The file system holds the files, as an
  association list from paths to their text, and the list of directories; the root
  \<open>[]\<close> is always a directory.  \<open>read_text\<close>, \<open>write_text\<close> and
  \<open>mkdir(parents=True, exist_ok=True)\<close> return the exception they raise as a value.
  A file holds bytes, taken to be well-formed UTF-8.  \<open>read_text\<close> opens the file in
  text mode: the line ends \<open>\r\n\<close> and \<open>\r\<close> are read as \<open>\n\<close>.  \<open>write_text\<close>
  writes \<open>\n\<close> as the line end of the platform, which is \<open>\n\<close> itself (POSIX).
  Permissions are not modelled.
\<close>

type_synonym path = "string list"

record fs =
  files :: "(path \<times> string) list"
  dirs :: "path list"

datatype py_error =
  FileNotFoundError | IsADirectoryError | FileExistsError | ValueError | IndexError | EOFError |
  ReError

definition is_dir :: "fs \<Rightarrow> path \<Rightarrow> bool" where
  "is_dir s p \<longleftrightarrow> p = [] \<or> p \<in> set (dirs s)"

definition is_file :: "fs \<Rightarrow> path \<Rightarrow> bool" where
  "is_file s p \<longleftrightarrow> \<not> is_dir s p \<and> map_of (files s) p \<noteq> None"

definition path_exists :: "fs \<Rightarrow> path \<Rightarrow> bool" where
  "path_exists s p \<longleftrightarrow> is_dir s p \<or> is_file s p"

fun universal_newlines :: "string \<Rightarrow> string" where
  "universal_newlines [] = []"
| "universal_newlines [c] = [if c = CR then NL else c]"
| "universal_newlines (c # d # cs) =
     (if c = CR \<and> d = NL then NL # universal_newlines cs
      else (if c = CR then NL else c) # universal_newlines (d # cs))"

definition read_text :: "fs \<Rightarrow> path \<Rightarrow> py_error + string" where
  "read_text s p =
     (if is_dir s p then Inl IsADirectoryError
      else (case map_of (files s) p of
              None \<Rightarrow> Inl FileNotFoundError
            | Some c \<Rightarrow> Inr (universal_newlines c)))"

definition write_text :: "fs \<Rightarrow> path \<Rightarrow> string \<Rightarrow> py_error + fs" where
  "write_text s p c =
     (if is_dir s p then Inl IsADirectoryError
      else if map_of (files s) p = None \<and> \<not> is_dir s (butlast p) then Inl FileNotFoundError
      else Inr (s\<lparr>files := AList.update p c (files s)\<rparr>))"


text \<open>The names in a directory, as \<open>iterdir\<close> and \<open>glob\<close> see them.\<close>

definition listdir :: "fs \<Rightarrow> path \<Rightarrow> string list" where
  "listdir s d =
     remdups (map last (filter (\<lambda>p. p \<noteq> [] \<and> butlast p = d) (map fst (files s) @ dirs s)))"

text \<open>
  \<open>str(path)\<close>, and the text of an exception in a printed line, which is abbreviated
  to the name of its class.
\<close>

fun path_str :: "path \<Rightarrow> string" where
  "path_str [] = ''.''"
| "path_str [a] = a"
| "path_str (a # as) = a @ ''/'' @ path_str as"


fun error_text :: "py_error \<Rightarrow> string" where
  "error_text FileNotFoundError = ''FileNotFoundError''"
| "error_text IsADirectoryError = ''IsADirectoryError''"
| "error_text FileExistsError = ''FileExistsError''"
| "error_text ValueError = ''ValueError''"
| "error_text IndexError = ''IndexError''"
| "error_text EOFError = ''EOFError''"
| "error_text ReError = ''error''"

text \<open>The symbols that start some printed lines, as their UTF-8 bytes.\<close>

definition CHECK :: string where
  "CHECK = [CHR 0xE2, CHR 0x9C, CHR 0x85]"




section \<open>Record transplanter\<close>

subsection \<open>\<open>str.replace\<close>\<close>

text \<open>
  \<open>s.replace(old, new)\<close>: the occurrences of \<open>old\<close> are replaced from the left, without
  overlap; an empty \<open>old\<close> matches before every character and at the end.
\<close>

function replace :: "string \<Rightarrow> string \<Rightarrow> string \<Rightarrow> string" where
  "replace old new s =
     (if old = [] then new @ concat (map (\<lambda>c. c # new) s)
      else if s = [] then []
      else if prefix old s then new @ replace old new (drop (length old) s)
      else hd s # replace old new (tl s))"
  by pat_completeness auto
termination
  by (relation "measure (\<lambda>(old, new, s). length s)") (auto simp: neq_Nil_conv)

declare replace.simps [simp del]

subsection \<open>archive-task.py: \<open>mark_task_completed\<close>\<close>

text \<open>
  The \<open>for\<close> loop over the lines, with the flag \<open>updated\<close>: a matching line with an
  open box is rewritten and the loop goes on; a matching line with a ticked box (and no
  open box) sets the flag and breaks.  The result is the list \<open>lines\<close> after the loop
  and the flag.
\<close>

fun mark_loop :: "string \<Rightarrow> string list \<Rightarrow> bool \<Rightarrow> string list \<times> bool" where
  "mark_loop task_id [] updated = ([], updated)"
| "mark_loop task_id (line # rest) updated =
     (if str_in task_id line \<and> str_in ''- ['' line then
        (if str_in ''- [ ]'' line then
           (let (rest', u) = mark_loop task_id rest True
            in (replace ''- [ ]'' ''- [x]'' line # rest', u))
         else if str_in ''- [x]'' line then (line # rest, True)
         else
           (let (rest', u) = mark_loop task_id rest updated in (line # rest', u)))
      else
        (let (rest', u) = mark_loop task_id rest updated in (line # rest', u)))"

text \<open>The result: the value returned, the file system afterwards, the lines printed.\<close>

definition mark_task_completed :: "fs \<Rightarrow> path \<Rightarrow> string \<Rightarrow> bool \<Rightarrow> bool \<times> fs \<times> string list" where
  "mark_task_completed s file_path task_id dry_run =
     (case read_text s file_path of
        Inl e \<Rightarrow>
          (False, s, [''Error updating '' @ path_str file_path @ '': '' @ error_text e])
      | Inr content \<Rightarrow>
          (let (lines, updated) = mark_loop task_id (split_lines content) False in
           if updated \<and> \<not> dry_run then
             (case write_text s file_path (join_lines lines) of
                Inl e \<Rightarrow>
                  (False, s, [''Error updating '' @ path_str file_path @ '': '' @ error_text e])
              | Inr s' \<Rightarrow>
                  (updated, s',
                   [CHECK @ '' Marked '' @ task_id @ '' as completed in '' @ path_str file_path]))
           else if updated then
             (updated, s,
              [''DRY RUN: Would mark '' @ task_id @ '' as completed in '' @ path_str file_path])
           else (updated, s, [])))"


section \<open>ID allocator\<close>

subsection \<open>Digits, \<open>int(...)\<close> and the format \<open>04d\<close>\<close>

text \<open>
  The ten ASCII digits.  \<open>int\<close> of a run of ASCII digits is its
  decimal value, and \<open>f"{n:04d}"\<close> is the decimal numeral of \<open>n\<close> padded with zeros on
  the left to at least four characters.  Python (3.11 and later, with the default of
  \<open>sys.int_max_str_digits\<close>) converts between \<open>int\<close> and \<open>str\<close> up to 4300 digits,
  leading zeros counted, and raises \<open>ValueError\<close> beyond.
\<close>

definition is_digit :: "char \<Rightarrow> bool" where
  "is_digit c \<longleftrightarrow> c \<in> set ''0123456789''"

definition digit_val :: "char \<Rightarrow> nat" where
  "digit_val c = of_char c - 48"

definition digit_char :: "nat \<Rightarrow> char" where
  "digit_char d = char_of (48 + d)"

definition dec_val :: "string \<Rightarrow> nat" where
  "dec_val ds = foldl (\<lambda>n c. 10 * n + digit_val c) 0 ds"

fun show_nat :: "nat \<Rightarrow> string" where
  "show_nat n = (if n < 10 then [digit_char n] else show_nat (n div 10) @ [digit_char (n mod 10)])"

declare show_nat.simps [simp del]

definition fmt04 :: "nat \<Rightarrow> string" where
  "fmt04 n = replicate (4 - length (show_nat n)) (CHR ''0'') @ show_nat n"

definition max_str_digits :: nat where
  "max_str_digits = 4300"

definition py_int :: "string \<Rightarrow> py_error + nat" where
  "py_int ds = (if length ds > max_str_digits then Inl ValueError else Inr (dec_val ds))"

definition py_fmt04 :: "nat \<Rightarrow> py_error + string" where
  "py_fmt04 n = (if length (show_nat n) > max_str_digits then Inl ValueError else Inr (fmt04 n))"

text \<open>
  \<open>\d\<close> matches every Unicode decimal digit, and \<open>int\<close> reads each of them as its value.
  The decimal digits (category Nd of Unicode 14.0, the database of Python 3.11) come in
  runs of ten, for the values 0 to 9; \<open>decimal_starts\<close> lists the code point of each
  zero.  \<open>ascii_digits\<close> writes every decimal digit of a text as the ASCII digit of its
  value: \<open>\d\<close> matches in a text where the ASCII digits match in the text so rewritten,
  and \<open>int\<close> of a matched run is the decimal value of the run so rewritten.
\<close>

definition decimal_starts :: "int list" where
  "decimal_starts =
     [0x30, 0x660, 0x6F0, 0x7C0, 0x966, 0x9E6, 0xA66, 0xAE6, 0xB66, 0xBE6, 0xC66,
      0xCE6, 0xD66, 0xDE6, 0xE50, 0xED0, 0xF20, 0x1040, 0x1090, 0x17E0, 0x1810, 0x1946,
      0x19D0, 0x1A80, 0x1A90, 0x1B50, 0x1BB0, 0x1C40, 0x1C50, 0xA620, 0xA8D0, 0xA900,
      0xA9D0, 0xA9F0, 0xAA50, 0xABF0, 0xFF10, 0x104A0, 0x10D30, 0x11066, 0x110F0,
      0x11136, 0x111D0, 0x112F0, 0x11450, 0x114D0, 0x11650, 0x116C0, 0x11730, 0x118E0,
      0x11950, 0x11C50, 0x11D50, 0x11DA0, 0x16A60, 0x16AC0, 0x16B50, 0x1D7CE, 0x1D7D8,
      0x1D7E2, 0x1D7EC, 0x1D7F6, 0x1E140, 0x1E2F0, 0x1E950, 0x1FBF0]"

definition decimal_value :: "string \<Rightarrow> nat option" where
  "decimal_value ch =
     (case filter (\<lambda>z. z \<le> cp_of ch \<and> cp_of ch < z + 10) decimal_starts of
        [] \<Rightarrow> None
      | z # _ \<Rightarrow> Some (nat (cp_of ch - z)))"

definition is_decimal :: "string \<Rightarrow> bool" where
  "is_decimal ch \<longleftrightarrow> decimal_value ch \<noteq> None"

definition ascii_digits :: "string \<Rightarrow> string" where
  "ascii_digits s =
     concat (map (\<lambda>ch. case decimal_value ch of None \<Rightarrow> ch | Some v \<Rightarrow> [digit_char v])
               (chars_of s))"

text \<open>\<open>int\<close> of each text of a list, from the left.\<close>

fun py_ints :: "string list \<Rightarrow> py_error + nat list" where
  "py_ints [] = Inr []"
| "py_ints (d # ds) =
     (case py_int d of
        Inl e \<Rightarrow> Inl e
      | Inr n \<Rightarrow> (case py_ints ds of Inl e \<Rightarrow> Inl e | Inr ns \<Rightarrow> Inr (n # ns)))"

subsection \<open>The patterns \<open>WAIVER-(\d+)\<close> and \<open>HITL-(\d+)\<close>\<close>


text \<open>
  \<open>re.findall(pre + r"(\d+)", text)\<close>: the groups of all matches from the left, each
  search starting where the match before it ended.
\<close>

function re_findall_id :: "string \<Rightarrow> string \<Rightarrow> string list" where
  "re_findall_id pre s =
     (if s = [] then []
      else if prefix pre s \<and> takeWhile is_digit (drop (length pre) s) \<noteq> []
      then takeWhile is_digit (drop (length pre) s) #
           re_findall_id pre (dropWhile is_digit (drop (length pre) s))
      else re_findall_id pre (tl s))"
  by pat_completeness auto
termination
proof (relation "measure (\<lambda>(pre, s). length s)")
  show "wf (measure (\<lambda>(pre, s). length s))"
    by simp
next
  fix pre s :: string
  assume "s \<noteq> []" and m: "prefix pre s \<and> takeWhile is_digit (drop (length pre) s) \<noteq> []"
  have "length (dropWhile is_digit (drop (length pre) s)) <
        length (takeWhile is_digit (drop (length pre) s)) +
        length (dropWhile is_digit (drop (length pre) s))"
    using m by simp
  also have "\<dots> = length (drop (length pre) s)"
    by (metis length_append takeWhile_dropWhile_id)
  also have "\<dots> \<le> length s"
    by simp
  finally show "((pre, dropWhile is_digit (drop (length pre) s)), (pre, s))
      \<in> measure (\<lambda>(pre, s). length s)"
    by simp
next
  fix pre s :: string
  assume "s \<noteq> []"
  then show "((pre, tl s), (pre, s)) \<in> measure (\<lambda>(pre, s). length s)"
    by (cases s) auto
qed

declare re_findall_id.simps [simp del]

subsection \<open>manage-waivers.py: \<open>get_waiver_id\<close>\<close>

text \<open>\<open>waivers_dir.glob("WAIVER-*.md")\<close>, as the names it yields.\<close>

definition glob_waivers :: "fs \<Rightarrow> path \<Rightarrow> string list" where
  "glob_waivers s waivers_dir =
     (if is_dir s waivers_dir
      then filter (\<lambda>name. prefix ''WAIVER-'' name \<and> suffix ''.md'' name) (listdir s waivers_dir)
      else [])"


subsection \<open>create-hitl-item.py: \<open>get_next_hitl_id\<close>\<close>

text \<open>
  An exception of \<open>read_text\<close>, of \<open>int\<close> or of the format is not caught: it is the
  result.
\<close>

definition get_next_hitl_id :: "fs \<Rightarrow> path \<Rightarrow> py_error + string" where
  "get_next_hitl_id s hitl_index_path =
     (if \<not> path_exists s hitl_index_path then Inr ''HITL-0001''
      else
        (case read_text s hitl_index_path of
           Inl e \<Rightarrow> Inl e
         | Inr content \<Rightarrow>
             (let ids = re_findall_id ''HITL-'' (ascii_digits content) in
              if ids = [] then Inr ''HITL-0001''
              else
                (case py_ints ids of
                   Inl e \<Rightarrow> Inl e
                 | Inr numbers \<Rightarrow>
                     (case py_fmt04 (Max (set numbers) + 1) of
                        Inl e \<Rightarrow> Inl e
                      | Inr number \<Rightarrow> Inr (''HITL-'' @ number))))))"

subsection \<open>The identifier tokens of the specification\<close>

text \<open>
  This definition follows the words of the specification: the tokens
  \<open>PREFIX-<digits>\<close> embedded in a document, each with its whole run of digits.
\<close>

definition spec_id_tokens :: "string \<Rightarrow> string \<Rightarrow> string set" where
  "spec_id_tokens pre content =
     {ds. ds \<noteq> [] \<and> list_all is_digit ds \<and>
          (\<exists>before rest. content = before @ pre @ ds @ rest \<and>
             (rest = [] \<or> \<not> is_digit (hd rest)))}"


section \<open>Lifecycle policy: waivers\<close>

subsection \<open>The patterns of manage-waivers.py\<close>

text \<open>
  \<open>\s\<close> and \<open>str.isspace\<close>: the white space of Unicode.  \<open>is_space\<close> is its ASCII part,
  on bytes; \<open>is_space_ch\<close> is the whole of it, on characters.
\<close>

definition is_space :: "char \<Rightarrow> bool" where
  "is_space c \<longleftrightarrow>
     c \<in> set [CHR '' '', CHR 0x09, NL, CHR 0x0B, CHR 0x0C, CHR 0x0D,
               CHR 0x1C, CHR 0x1D, CHR 0x1E, CHR 0x1F]"

definition space_points :: "int list" where
  "space_points =
     [0x09, 0x0A, 0x0B, 0x0C, 0x0D, 0x1C, 0x1D, 0x1E, 0x1F, 0x20, 0x85, 0xA0, 0x1680,
      0x2000, 0x2001, 0x2002, 0x2003, 0x2004, 0x2005, 0x2006, 0x2007, 0x2008, 0x2009,
      0x200A, 0x2028, 0x2029, 0x202F, 0x205F, 0x3000]"

definition is_space_ch :: "string \<Rightarrow> bool" where
  "is_space_ch ch \<longleftrightarrow> cp_of ch \<in> set space_points"

text \<open>The characters of an ASCII text, as a pattern spells them.\<close>

definition lit :: "string \<Rightarrow> string list" where
  "lit s = map (\<lambda>c. [c]) s"

text \<open>
  \<open>\d{4}-\d{2}-\d{2}\<close> at the start of a list of characters: the text of the ten
  characters it matches.
\<close>

definition match_date :: "string list \<Rightarrow> string option" where
  "match_date chs =
     (let t = take 10 chs in
      if length t = 10 \<and> list_all is_decimal (take 4 t) \<and> t ! 4 = ''-'' \<and>
         list_all is_decimal (take 2 (drop 5 t)) \<and> t ! 7 = ''-'' \<and>
         list_all is_decimal (drop 8 t)
      then Some (concat t) else None)"

text \<open>
  \<open>re.search(r"\*\*Expiration\*\*:\s*(\d{4}-\d{2}-\d{2})", content)\<close>: the leftmost
  \<open>**Expiration**:\<close> that is followed, after any white space, by a date; the group is
  the date.  The white space cannot be given back to any effect, since a digit must
  follow it.
\<close>

fun search_expiration_chars :: "string list \<Rightarrow> string option" where
  "search_expiration_chars [] = None"
| "search_expiration_chars (c # cs) =
     (if prefix (lit ''**Expiration**:'') (c # cs) then
        (case match_date (dropWhile is_space_ch (drop (length ''**Expiration**:'') (c # cs))) of
           Some g \<Rightarrow> Some g
         | None \<Rightarrow> search_expiration_chars cs)
      else search_expiration_chars cs)"

definition search_expiration :: "string \<Rightarrow> string option" where
  "search_expiration content = search_expiration_chars (chars_of content)"

text \<open>
  \<open>re.search(label + r"\s*(.+)", content)\<close> for the labels \<open>**Waives**:\<close> and
  \<open>**Owner**:\<close>.  After the white space the group takes the rest of the line.  When the
  white space runs to the end of the text, the pattern gives white space back: the
  group is then the last character of the run that is not a newline, if there is one.
\<close>

definition match_rest :: "string list \<Rightarrow> string option" where
  "match_rest chs =
     (let ws = takeWhile is_space_ch chs; rest = dropWhile is_space_ch chs in
      if rest \<noteq> [] then Some (concat (takeWhile (\<lambda>ch. ch \<noteq> [NL]) rest))
      else (case dropWhile (\<lambda>ch. ch = [NL]) (rev ws) of
              [] \<Rightarrow> None
            | ch # _ \<Rightarrow> Some ch))"

fun search_field_chars :: "string \<Rightarrow> string list \<Rightarrow> string option" where
  "search_field_chars label [] = None"
| "search_field_chars label (c # cs) =
     (if prefix (lit label) (c # cs) then
        (case match_rest (drop (length label) (c # cs)) of
           Some g \<Rightarrow> Some g
         | None \<Rightarrow> search_field_chars label cs)
      else search_field_chars label cs)"

definition search_field :: "string \<Rightarrow> string \<Rightarrow> string option" where
  "search_field label content = search_field_chars label (chars_of content)"

subsection \<open>Calendar dates\<close>

text \<open>
  \<open>datetime.strptime(g, "%Y-%m-%d").date()\<close> on a text that matched the date pattern.
  \<open>strptime\<close> matches the year with \<open>\d\d\d\d\<close>, the month with
  \<open>1[0-2]|0[1-9]|[1-9]\<close> and the day with \<open>3[0-1]|[1-2]\d|0[1-9]|[1-9]| [1-9]\<close>, and
  wants the whole text matched: the month is written in ASCII, and so is the day but
  for the second digit after \<open>1\<close> or \<open>2\<close>.  It raises \<open>ValueError\<close> otherwise, and unless
  the year is at least 1 and the day exists in that month.  Dates compare as the tuples
  (year, month, day).
\<close>

record date =
  year :: nat
  month :: nat
  day :: nat

definition is_leap :: "nat \<Rightarrow> bool" where
  "is_leap y \<longleftrightarrow> y mod 4 = 0 \<and> (y mod 100 \<noteq> 0 \<or> y mod 400 = 0)"

definition days_in_month :: "nat \<Rightarrow> nat \<Rightarrow> nat" where
  "days_in_month y m =
     (if m = 2 then (if is_leap y then 29 else 28)
      else if m = 4 \<or> m = 6 \<or> m = 9 \<or> m = 11 then 30 else 31)"

definition strptime_ymd :: "string \<Rightarrow> py_error + date" where
  "strptime_ymd g =
     (let t = chars_of g;
          y = dec_val (ascii_digits (concat (take 4 t)));
          m = dec_val (concat (take 2 (drop 5 t)));
          d = dec_val (ascii_digits (concat (drop 8 t)));
          m1 = t ! 5; m2 = t ! 6; d1 = t ! 8; d2 = t ! 9
      in if ((m1 = ''1'' \<and> m2 \<in> set (lit ''012'')) \<or> (m1 = ''0'' \<and> m2 \<in> set (lit ''123456789''))) \<and>
            ((d1 = ''3'' \<and> d2 \<in> set (lit ''01'')) \<or>
             (d1 \<in> set (lit ''12'') \<and> is_decimal d2) \<or>
             (d1 = ''0'' \<and> d2 \<in> set (lit ''123456789''))) \<and>
            1 \<le> y \<and> d \<le> days_in_month y m
         then Inr \<lparr>year = y, month = m, day = d\<rparr>
         else Inl ValueError)"

definition date_lt :: "date \<Rightarrow> date \<Rightarrow> bool" where
  "date_lt a b \<longleftrightarrow>
     year a < year b \<or>
     (year a = year b \<and> (month a < month b \<or> (month a = month b \<and> day a < day b)))"

definition date_ge :: "date \<Rightarrow> date \<Rightarrow> bool" where
  "date_ge a b \<longleftrightarrow>
     date_lt b a \<or> (year a = year b \<and> month a = month b \<and> day a = day b)"

subsection \<open>manage-waivers.py: \<open>check_expired_waivers\<close> and \<open>list_active_waivers\<close>\<close>

text \<open>
  The dictionaries the two functions append.  \<open>today\<close> is \<open>datetime.now().date()\<close>.
  An exception of \<open>read_text\<close> or \<open>strptime\<close> is not caught: it ends the loop and is
  the result.
\<close>

record expired_waiver =
  ew_file :: string
  ew_expiration :: string
  ew_content :: string

record active_waiver =
  aw_file :: string
  aw_waives :: string
  aw_owner :: string
  aw_expiration :: string

fun check_expired_loop ::
  "fs \<Rightarrow> path \<Rightarrow> date \<Rightarrow> string list \<Rightarrow> py_error + expired_waiver list" where
  "check_expired_loop s waivers_dir today [] = Inr []"
| "check_expired_loop s waivers_dir today (name # rest) =
     (case read_text s (waivers_dir @ [name]) of
        Inl e \<Rightarrow> Inl e
      | Inr content \<Rightarrow>
          (case search_expiration content of
             None \<Rightarrow> check_expired_loop s waivers_dir today rest
           | Some g \<Rightarrow>
               (case strptime_ymd g of
                  Inl e \<Rightarrow> Inl e
                | Inr exp_date \<Rightarrow>
                    (case check_expired_loop s waivers_dir today rest of
                       Inl e \<Rightarrow> Inl e
                     | Inr expired \<Rightarrow>
                         Inr (if date_lt exp_date today
                              then \<lparr>ew_file = name, ew_expiration = g, ew_content = content\<rparr>
                                   # expired
                              else expired)))))"

definition check_expired_waivers :: "fs \<Rightarrow> path \<Rightarrow> date \<Rightarrow> py_error + expired_waiver list" where
  "check_expired_waivers s waivers_dir today =
     (if \<not> path_exists s waivers_dir then Inr []
      else check_expired_loop s waivers_dir today (glob_waivers s waivers_dir))"

fun list_active_loop ::
  "fs \<Rightarrow> path \<Rightarrow> date \<Rightarrow> string list \<Rightarrow> py_error + active_waiver list" where
  "list_active_loop s waivers_dir today [] = Inr []"
| "list_active_loop s waivers_dir today (name # rest) =
     (case read_text s (waivers_dir @ [name]) of
        Inl e \<Rightarrow> Inl e
      | Inr content \<Rightarrow>
          (case search_expiration content of
             None \<Rightarrow> list_active_loop s waivers_dir today rest
           | Some g \<Rightarrow>
               (case strptime_ymd g of
                  Inl e \<Rightarrow> Inl e
                | Inr exp_date \<Rightarrow>
                    (case list_active_loop s waivers_dir today rest of
                       Inl e \<Rightarrow> Inl e
                     | Inr active \<Rightarrow>
                         Inr (if date_ge exp_date today
                              then \<lparr>aw_file = name,
                                    aw_waives = (case search_field ''**Waives**:'' content of
                                                   Some w \<Rightarrow> w | None \<Rightarrow> ''Unknown''),
                                    aw_owner = (case search_field ''**Owner**:'' content of
                                                  Some w \<Rightarrow> w | None \<Rightarrow> ''Unknown''),
                                    aw_expiration = g\<rparr> # active
                              else active)))))"

definition list_active_waivers :: "fs \<Rightarrow> path \<Rightarrow> date \<Rightarrow> py_error + active_waiver list" where
  "list_active_waivers s waivers_dir today =
     (if \<not> path_exists s waivers_dir then Inr []
      else list_active_loop s waivers_dir today (glob_waivers s waivers_dir))"


section \<open>promote-task.py\<close>

subsection \<open>\<open>validate_task_format\<close>\<close>









subsection \<open>\<open>remove_task_from_file\<close> and \<open>add_task_to_file\<close>\<close>







subsection \<open>\<open>main\<close> of promote-task.py\<close>







section \<open>archive-task.py: archiving and promoting\<close>

subsection \<open>\<open>archive_task\<close>\<close>


subsection \<open>\<open>promote_task\<close>\<close>







section \<open>manage-waivers.py: creating a waiver\<close>






section \<open>create-hitl-item.py: the index table\<close>

subsection \<open>The pattern of the Active table\<close>

text \<open>
  \<open>\|[^\n]+\n\<close> at the start of a text: a bar, at least one more character of the
  line, and the newline that ends it.  The result is the matched text and the rest.
\<close>

definition match_line :: "string \<Rightarrow> (string \<times> string) option" where
  "match_line s =
     (case s of
        [] \<Rightarrow> None
      | c # cs \<Rightarrow>
          (let body = takeWhile (\<lambda>x. x \<noteq> NL) cs; rest = dropWhile (\<lambda>x. x \<noteq> NL) cs in
           if c = CHR ''|'' \<and> body \<noteq> [] \<and> rest \<noteq> [] then Some (c # body @ [NL], tl rest)
           else None))"

text \<open>
  \<open>(?:\|[^\n]+\n?)*\<close> at the start of a text.  Each round takes a bar, the rest of the
  line (at least one character) and the newline if there is one; being greedy, and with
  nothing after it in the pattern, it stops at the first line that does not fit.  A last
  line without a newline is taken too, and ends the match.
\<close>

function match_rows :: "string \<Rightarrow> string" where
  "match_rows s =
     (case s of
        [] \<Rightarrow> []
      | c # cs \<Rightarrow>
          (let body = takeWhile (\<lambda>x. x \<noteq> NL) cs; rest = dropWhile (\<lambda>x. x \<noteq> NL) cs in
           if c = CHR ''|'' \<and> body \<noteq> [] then
             (case rest of
                [] \<Rightarrow> c # body
              | r # rs \<Rightarrow> c # body @ [NL] @ match_rows rs)
           else []))"
  by pat_completeness auto
termination
proof (relation "measure length")
  show "wf (measure length)"
    by simp
next
  fix s :: string and c cs body rest r rs
  assume s: "s = c # cs" and rest: "rest = dropWhile (\<lambda>x. x \<noteq> NL) cs" "rest = r # rs"
  have "length rest \<le> length cs"
    unfolding rest(1) by (rule length_dropWhile_le)
  then show "(rs, s) \<in> measure length"
    using s rest(2) by simp
qed

declare match_rows.simps [simp del]

text \<open>
  The whole pattern
  \<open>(### Active\s*\n\|[^\n]+\n\|[^\n]+\n)((?:\|[^\n]+\n?)*)\<close> at the start of a text:
  the two groups.  \<open>\s*\n\|\<close> matches a run of white space only if the run is all the
  white space there, ends with a newline and stands before a bar, because a bar is not
  white space; so the run is not empty and its last character is a newline.  The match
  is the two groups one after the other.
\<close>

definition match_active_table :: "string \<Rightarrow> (string \<times> string) option" where
  "match_active_table s =
     (if startswith s ''### Active'' then
        (let t = drop (length ''### Active'') s;
             ws = takeWhile is_space t in
         if ws \<noteq> [] \<and> last ws = NL then
           (case match_line (dropWhile is_space t) of
              None \<Rightarrow> None
            | Some (header, t2) \<Rightarrow>
                (case match_line t2 of
                   None \<Rightarrow> None
                 | Some (separator, t3) \<Rightarrow>
                     Some (''### Active'' @ ws @ header @ separator, match_rows t3)))
         else None)
      else None)"

text \<open>\<open>re.search\<close> of the pattern: the groups of the leftmost match.\<close>

fun re_search_active :: "string \<Rightarrow> (string \<times> string) option" where
  "re_search_active [] = None"
| "re_search_active (c # cs) =
     (case match_active_table (c # cs) of
        Some m \<Rightarrow> Some m
      | None \<Rightarrow> re_search_active cs)"

subsection \<open>The replacement template of \<open>re.sub\<close>\<close>

text \<open>
  \<open>re.sub\<close> reads a replacement string as a template: a backslash starts an escape.
  The parser goes through the template from the left and gives the literal texts and
  the group references, or raises.  With the two groups of the pattern:
  \<^item> \<open>\g<name>\<close> is the group of that number (0, 1 or 2); a greater number, an
    empty or unterminated name and a name that is neither a number nor an identifier
    raise \<open>re.error\<close>, an identifier raises \<open>IndexError\<close> (no group has a name).
    A name is a number if it consists of ASCII digits, as Python 3.12 reads it.
  \<^item> \<open>\0\<close> with up to two more octal digits is the character of that octal value.
  \<^item> Three octal digits are the character of that value, which must be at most 0o377;
    one or two digits otherwise are a group number.
  \<^item> \<open>\a \b \f \n \r \t \v \\\<close> are the characters they name; a backslash before
    another ASCII letter raises \<open>re.error\<close>; before any other character both stay.
  \<^item> A backslash at the end raises \<open>re.error\<close>.  The parser reads one token ahead, so
    this error comes before the \<open>IndexError\<close> of a \<open>\g<name>\<close> right before it.
  A text is its UTF-8 bytes, so the character of a value from 128 on is two bytes.
\<close>

datatype template_item = Literal string | Group nat

definition is_octdigit :: "char \<Rightarrow> bool" where
  "is_octdigit c \<longleftrightarrow> c \<in> set ''01234567''"

definition is_ascii_letter :: "char \<Rightarrow> bool" where
  "is_ascii_letter c \<longleftrightarrow>
     c \<in> set ''abcdefghijklmnopqrstuvwxyzABCDEFGHIJKLMNOPQRSTUVWXYZ''"

text \<open>\<open>str.isidentifier\<close> on ASCII text.\<close>

definition is_identifier :: "string \<Rightarrow> bool" where
  "is_identifier name \<longleftrightarrow>
     name \<noteq> [] \<and> \<not> is_digit (hd name) \<and>
     list_all (\<lambda>c. is_ascii_letter c \<or> is_digit c \<or> c = CHR ''_'') name"

definition oct_val :: "string \<Rightarrow> nat" where
  "oct_val ds = foldl (\<lambda>n c. 8 * n + digit_val c) 0 ds"

definition chr_utf8 :: "nat \<Rightarrow> string" where
  "chr_utf8 n =
     (if n < 128 then [char_of n] else [char_of (192 + n div 64), char_of (128 + n mod 64)])"

definition escape_char :: "char \<Rightarrow> char option" where
  "escape_char c =
     (if c = CHR ''a'' then Some (CHR 0x07)
      else if c = CHR ''b'' then Some (CHR 0x08)
      else if c = CHR ''f'' then Some (CHR 0x0C)
      else if c = CHR ''n'' then Some NL
      else if c = CHR ''r'' then Some (CHR 0x0D)
      else if c = CHR ''t'' then Some (CHR 0x09)
      else if c = CHR ''v'' then Some (CHR 0x0B)
      else if c = CHR 0x5C then Some (CHR 0x5C)
      else None)"

definition add_item :: "template_item \<Rightarrow> py_error + template_item list \<Rightarrow> py_error + template_item list" where
  "add_item x r = (case r of Inl e \<Rightarrow> Inl e | Inr xs \<Rightarrow> Inr (x # xs))"

text \<open>\<open>addgroup\<close>: a group number above the number of groups raises.\<close>

definition add_group :: "nat \<Rightarrow> py_error + template_item list \<Rightarrow> py_error + template_item list" where
  "add_group n r = (if n > 2 then Inl ReError else add_item (Group n) r)"

function parse_template :: "string \<Rightarrow> py_error + template_item list" where
  "parse_template s =
     (case s of
        [] \<Rightarrow> Inr []
      | c # cs \<Rightarrow>
          if c \<noteq> CHR 0x5C then add_item (Literal [c]) (parse_template cs)
          else
            (case cs of
               [] \<Rightarrow> Inl ReError
             | d # ds \<Rightarrow>
                 if d = CHR ''g'' then
                   (case ds of
                      [] \<Rightarrow> Inl ReError
                    | x # xs \<Rightarrow>
                        (let name = takeWhile (\<lambda>y. y \<noteq> CHR ''>'') xs;
                             rest = dropWhile (\<lambda>y. y \<noteq> CHR ''>'') xs in
                         if x \<noteq> CHR ''<'' \<or> rest = [] \<or> name = [] \<or> tl rest = [CHR 0x5C]
                         then Inl ReError
                         else if list_all is_digit name
                         then add_group (dec_val name) (parse_template (tl rest))
                         else if is_identifier name then Inl IndexError
                         else Inl ReError))
                 else if d = CHR ''0'' then
                   (let ods = take 2 (takeWhile is_octdigit ds) in
                    add_item (Literal (chr_utf8 (oct_val ods mod 256)))
                      (parse_template (drop (length ods) ds)))
                 else if is_digit d then
                   (case ds of
                      [] \<Rightarrow> add_group (digit_val d) (parse_template ds)
                    | e # es \<Rightarrow>
                        if is_digit e then
                          (case es of
                             [] \<Rightarrow> add_group (dec_val [d, e]) (parse_template es)
                           | f # fs \<Rightarrow>
                               if is_octdigit d \<and> is_octdigit e \<and> is_octdigit f then
                                 (if oct_val [d, e, f] > 255 then Inl ReError
                                  else add_item (Literal (chr_utf8 (oct_val [d, e, f])))
                                         (parse_template fs))
                               else add_group (dec_val [d, e]) (parse_template es))
                        else add_group (digit_val d) (parse_template ds))
                 else
                   (case escape_char d of
                      Some ch \<Rightarrow> add_item (Literal [ch]) (parse_template ds)
                    | None \<Rightarrow>
                        if is_ascii_letter d then Inl ReError
                        else add_item (Literal [c, d]) (parse_template ds))))"
  by pat_completeness auto
termination
proof (relation "measure length")
  show "wf (measure length)"
    by simp
next
  fix s :: string and c cs d ds x xs name rest
  assume s: "s = c # cs" "cs = d # ds" "ds = x # xs"
    and rest: "rest = dropWhile (\<lambda>y. y \<noteq> CHR ''>'') xs"
  have "length rest \<le> length xs"
    unfolding rest by (rule length_dropWhile_le)
  then show "(tl rest, s) \<in> measure length"
    using s by simp
qed simp_all

declare parse_template.simps [simp del]

text \<open>The text of a template for a match with the groups \<open>g1\<close> and \<open>g2\<close>.\<close>

definition expand_template :: "template_item list \<Rightarrow> string \<Rightarrow> string \<Rightarrow> string" where
  "expand_template items g1 g2 =
     concat (map (\<lambda>x. case x of
                         Literal l \<Rightarrow> l
                       | Group n \<Rightarrow> if n = 0 then g1 @ g2 else if n = 1 then g1 else g2) items)"

text \<open>
  \<open>re.sub\<close> of the pattern: every match from the left is replaced by the text of the
  template, and the search goes on where the match ended; the text between the matches
  stays.
\<close>

function re_sub_active :: "template_item list \<Rightarrow> string \<Rightarrow> string" where
  "re_sub_active items s =
     (case match_active_table s of
        Some (g1, g2) \<Rightarrow>
          expand_template items g1 g2 @ re_sub_active items (drop (length (g1 @ g2)) s)
      | None \<Rightarrow>
          (case s of
             [] \<Rightarrow> []
           | c # cs \<Rightarrow> c # re_sub_active items cs))"
  by pat_completeness auto
termination
proof (relation "measure (\<lambda>(items, s). length s)")
  show "wf (measure (\<lambda>(items, s). length s))"
    by simp
next
  fix items :: "template_item list" and s :: string and m g1 g2
  assume m: "match_active_table s = Some m" "(g1, g2) = m"
  then have "prefix ''### Active'' s" and "g1 \<noteq> []"
    by (auto simp: match_active_table_def startswith_def Let_def
             split: if_splits option.splits prod.splits)
  then have "s \<noteq> []" and "0 < length (g1 @ g2)"
    by auto
  then show "((items, drop (length (g1 @ g2)) s), (items, s)) \<in> measure (\<lambda>(items, s). length s)"
    by simp
qed simp

declare re_sub_active.simps [simp del]

subsection \<open>\<open>add_to_index\<close>\<close>

text \<open>
  Without an index file, one is written with the new row in its Active table.  With
  one, the Active table is searched; if it is found, the replacement is the header, the
  rows found and the new row, and \<open>re.sub\<close> puts it in place of every match; if not, an
  Active section with the new row is added at the end.
\<close>

definition new_index :: "string \<Rightarrow> string \<Rightarrow> string \<Rightarrow> string \<Rightarrow> string" where
  "new_index hitl_id category summary filepath =
     ''# /.repo/policy/HITL.md'' @ [NL] @
     ''HITL = Human-In-The-Loop. This is the single binding place for human-required actions.'' @ [NL] @
     [NL] @
     ''## Index tables'' @ [NL] @
     ''### Active'' @ [NL] @
     ''|ID|Category|Status|Summary|Filepath|'' @ [NL] @
     ''|---|---|---|---|---|'' @ [NL] @
     ''|'' @ hitl_id @ ''|'' @ category @ ''|Pending|'' @ summary @ ''|'' @ filepath @ ''|'' @ [NL] @
     [NL] @
     ''### Archived'' @ [NL] @
     ''|ID|Category|Status|Summary|Filepath|'' @ [NL] @
     ''|---|---|---|---|---|'' @ [NL]"

definition active_section :: "string \<Rightarrow> string \<Rightarrow> string \<Rightarrow> string \<Rightarrow> string" where
  "active_section hitl_id category summary filepath =
     [NL] @
     ''### Active'' @ [NL] @
     ''|ID|Category|Status|Summary|Filepath|'' @ [NL] @
     ''|---|---|---|---|---|'' @ [NL] @
     ''|'' @ hitl_id @ ''|'' @ category @ ''|Pending|'' @ summary @ ''|'' @ filepath @ ''|'' @ [NL]"

definition add_to_index ::
  "fs \<Rightarrow> path \<Rightarrow> string \<Rightarrow> string \<Rightarrow> string \<Rightarrow> string \<Rightarrow> py_error + fs" where
  "add_to_index s hitl_index_path hitl_id category summary filepath =
     (if \<not> path_exists s hitl_index_path
      then write_text s hitl_index_path (new_index hitl_id category summary filepath)
      else
        (case read_text s hitl_index_path of
           Inl e \<Rightarrow> Inl e
         | Inr content \<Rightarrow>
             (case re_search_active content of
                Some (table_header, table_rows) \<Rightarrow>
                  (let new_row = ''|'' @ hitl_id @ ''|'' @ category @ ''|Pending|'' @ summary @
                                 ''|'' @ filepath @ ''|'' @ [NL];
                       new_table = table_header @ table_rows @ new_row in
                   (case parse_template new_table of
                      Inl e \<Rightarrow> Inl e
                    | Inr items \<Rightarrow> write_text s hitl_index_path (re_sub_active items content)))
              | None \<Rightarrow>
                  write_text s hitl_index_path
                    (content @ active_section hitl_id category summary filepath))))"


subsection \<open>Tables in the words of the specification\<close>

text \<open>
  A line of a pipe-delimited table, in the words of the specification: it starts with
  a bar, goes on with at least one more character and holds no newline.
\<close>

definition spec_table_line :: "string \<Rightarrow> bool" where
  "spec_table_line r \<longleftrightarrow>
     (case r of [] \<Rightarrow> False | c # b \<Rightarrow> c = CHR ''|'' \<and> b \<noteq> [] \<and> NL \<notin> set b)"

text \<open>The lines of a table as text, each ended by a newline.\<close>

definition spec_table_text :: "string list \<Rightarrow> string" where
  "spec_table_text rows = concat (map (\<lambda>r. r @ [NL]) rows)"


section \<open>Properties of the string primitives\<close>





section \<open>Properties of the locator\<close>

lemma at_find_loop_None:
  "at_find_loop i ls task_id = None \<longleftrightarrow> (\<forall>l \<in> set ls. \<not> at_task_line task_id l)"
  by (induction ls arbitrary: i) auto

lemma at_find_loop_Some:
  "at_find_loop i ls task_id = Some (k, line) \<longleftrightarrow>
     i \<le> k \<and> k - i < length ls \<and> line = ls ! (k - i) \<and> at_task_line task_id line \<and>
     (\<forall>j < k - i. \<not> at_task_line task_id (ls ! j))"
proof (induction ls arbitrary: i)
  case Nil
  show ?case by simp
next
  case (Cons l ls)
  show ?case
  proof (cases "at_task_line task_id l")
    case True
    then show ?thesis by (cases "k - i") auto
  next
    case False
    have "at_find_loop i (l # ls) task_id = Some (k, line) \<longleftrightarrow>
          at_find_loop (Suc i) ls task_id = Some (k, line)"
      using False by simp
    also have "\<dots> \<longleftrightarrow> Suc i \<le> k \<and> k - Suc i < length ls \<and> line = ls ! (k - Suc i) \<and>
        at_task_line task_id line \<and> (\<forall>j < k - Suc i. \<not> at_task_line task_id (ls ! j))"
      by (rule Cons.IH)
    also have "\<dots> \<longleftrightarrow> i \<le> k \<and> k - i < length (l # ls) \<and> line = (l # ls) ! (k - i) \<and>
        at_task_line task_id line \<and> (\<forall>j < k - i. \<not> at_task_line task_id ((l # ls) ! j))"
    proof (cases "k - i")
      case 0
      then show ?thesis using False by auto
    next
      case (Suc m)
      then have km: "k - Suc i = m" "Suc i \<le> k" "i \<le> k" by auto
      have "(\<forall>j < Suc m. \<not> at_task_line task_id ((l # ls) ! j)) \<longleftrightarrow>
            (\<forall>j < m. \<not> at_task_line task_id (ls ! j))"
        using False by (auto simp: less_Suc_eq_0_disj)
      then show ?thesis using Suc km by simp
    qed
    finally show ?thesis .
  qed
qed

lemma pt_collect_eq:
  "pt_collect lines j acc = acc @ takeWhile (\<lambda>l. \<not> pt_stop_line l) (drop j lines)"
proof (induction lines j acc rule: pt_collect.induct)
  case (1 lines j task_lines)
  show ?case
  proof (cases "j < length lines \<and> \<not> pt_stop_line (lines ! j)")
    case True
    then have d: "drop j lines = lines ! j # drop (Suc j) lines"
      by (simp add: Cons_nth_drop_Suc)
    have "pt_collect lines j task_lines = pt_collect lines (Suc j) (task_lines @ [lines ! j])"
      using True by (subst pt_collect.simps) simp
    also have "\<dots> = (task_lines @ [lines ! j]) @
        takeWhile (\<lambda>l. \<not> pt_stop_line l) (drop (Suc j) lines)"
      using True by (intro "1.IH") simp
    finally show ?thesis using True d by simp
  next
    case False
    have "pt_collect lines j task_lines = task_lines"
      using False by (subst pt_collect.simps) auto
    moreover have "takeWhile (\<lambda>l. \<not> pt_stop_line l) (drop j lines) = []"
    proof (cases "j < length lines")
      case True
      with False show ?thesis by (simp add: Cons_nth_drop_Suc [symmetric])
    next
      case False
      then show ?thesis by simp
    qed
    ultimately show ?thesis by simp
  qed
qed

lemma pt_find_loop_None:
  "pt_find_loop lines i ls task_id = None \<longleftrightarrow> (\<forall>l \<in> set ls. \<not> pt_task_line task_id l)"
  by (induction ls arbitrary: i) auto

lemma pt_find_loop_Some:
  "pt_find_loop lines i ls task_id = Some (k, task_lines) \<longleftrightarrow>
     i \<le> k \<and> k - i < length ls \<and> pt_task_line task_id (ls ! (k - i)) \<and>
     (\<forall>j < k - i. \<not> pt_task_line task_id (ls ! j)) \<and>
     task_lines = ls ! (k - i) # takeWhile (\<lambda>l. \<not> pt_stop_line l) (drop (Suc k) lines)"
proof (induction ls arbitrary: i)
  case Nil
  show ?case by simp
next
  case (Cons l ls)
  show ?case
  proof (cases "pt_task_line task_id l")
    case True
    then show ?thesis by (cases "k - i") (auto simp: pt_collect_eq)
  next
    case False
    have "pt_find_loop lines i (l # ls) task_id = Some (k, task_lines) \<longleftrightarrow>
          pt_find_loop lines (Suc i) ls task_id = Some (k, task_lines)"
      using False by simp
    also have "\<dots> \<longleftrightarrow> Suc i \<le> k \<and> k - Suc i < length ls \<and>
        pt_task_line task_id (ls ! (k - Suc i)) \<and>
        (\<forall>j < k - Suc i. \<not> pt_task_line task_id (ls ! j)) \<and>
        task_lines = ls ! (k - Suc i) # takeWhile (\<lambda>l. \<not> pt_stop_line l) (drop (Suc k) lines)"
      by (rule Cons.IH)
    also have "\<dots> \<longleftrightarrow> i \<le> k \<and> k - i < length (l # ls) \<and>
        pt_task_line task_id ((l # ls) ! (k - i)) \<and>
        (\<forall>j < k - i. \<not> pt_task_line task_id ((l # ls) ! j)) \<and>
        task_lines = (l # ls) ! (k - i) # takeWhile (\<lambda>l. \<not> pt_stop_line l) (drop (Suc k) lines)"
    proof (cases "k - i")
      case 0
      then show ?thesis using False by auto
    next
      case (Suc m)
      then have km: "k - Suc i = m" "Suc i \<le> k" "i \<le> k" by auto
      have "(\<forall>j < Suc m. \<not> pt_task_line task_id ((l # ls) ! j)) \<longleftrightarrow>
            (\<forall>j < m. \<not> pt_task_line task_id (ls ! j))"
        using False by (auto simp: less_Suc_eq_0_disj)
      then show ?thesis using Suc km by simp
    qed
    finally show ?thesis .
  qed
qed


section \<open>Claims about the locator\<close>

text \<open>
  C10.  Matching an identifier is plain substring containment.  Each locator returns
  the first line of the document that contains the identifier anywhere
  (\<open>line = pre @ task_id @ post\<close>) and contains a marker anywhere; nothing bounds the
  identifier as a token.  Hence \<open>TASK-7\<close> locates the record of \<open>TASK-71\<close>.
\<close>

theorem locator_matches_by_substring:
  "(at_find_task_in_file (Some content) task_id = Some (i, line) \<longleftrightarrow>
      i < length (split_lines content) \<and> line = split_lines content ! i \<and>
      (\<exists>pre post. line = pre @ task_id @ post) \<and>
      (str_in ''- ['' line \<or> str_in ''##'' line) \<and>
      (\<forall>j < i. \<not> ((\<exists>pre post. split_lines content ! j = pre @ task_id @ post) \<and>
         (str_in ''- ['' (split_lines content ! j) \<or> str_in ''##'' (split_lines content ! j))))) \<and>
   ((\<exists>task_lines. pt_find_task_in_file (Some content) task_id = Some (i, line # task_lines)) \<longleftrightarrow>
      i < length (split_lines content) \<and> line = split_lines content ! i \<and>
      (\<exists>pre post. line = pre @ task_id @ post) \<and>
      (str_in ''####'' line \<or> str_in ''###'' line) \<and>
      (\<forall>j < i. \<not> ((\<exists>pre post. split_lines content ! j = pre @ task_id @ post) \<and>
         (str_in ''####'' (split_lines content ! j) \<or> str_in ''###'' (split_lines content ! j))))) \<and>
   at_find_task_in_file (Some ''- [ ] TASK-71 fix login'') ''TASK-7'' =
     Some (0, ''- [ ] TASK-71 fix login'') \<and>
   pt_find_task_in_file (Some ''### [TASK-71] fix login'') ''TASK-7'' =
     Some (0, [''### [TASK-71] fix login''])"
proof (intro conjI)
  have sub: "\<And>l. (\<exists>pre post. l = pre @ task_id @ post) \<longleftrightarrow> str_in task_id l"
    by (simp add: str_in_def sublist_def)
  show "at_find_task_in_file (Some content) task_id = Some (i, line) \<longleftrightarrow>
      i < length (split_lines content) \<and> line = split_lines content ! i \<and>
      (\<exists>pre post. line = pre @ task_id @ post) \<and>
      (str_in ''- ['' line \<or> str_in ''##'' line) \<and>
      (\<forall>j < i. \<not> ((\<exists>pre post. split_lines content ! j = pre @ task_id @ post) \<and>
         (str_in ''- ['' (split_lines content ! j) \<or> str_in ''##'' (split_lines content ! j))))"
    unfolding sub
    by (simp add: at_find_task_in_file_def at_find_loop_Some at_task_line_def)
  show "(\<exists>task_lines. pt_find_task_in_file (Some content) task_id = Some (i, line # task_lines)) \<longleftrightarrow>
      i < length (split_lines content) \<and> line = split_lines content ! i \<and>
      (\<exists>pre post. line = pre @ task_id @ post) \<and>
      (str_in ''####'' line \<or> str_in ''###'' line) \<and>
      (\<forall>j < i. \<not> ((\<exists>pre post. split_lines content ! j = pre @ task_id @ post) \<and>
         (str_in ''####'' (split_lines content ! j) \<or> str_in ''###'' (split_lines content ! j))))"
    unfolding sub
    by (simp add: pt_find_task_in_file_def pt_find_loop_Some pt_task_line_def Let_def) blast
  show "at_find_task_in_file (Some ''- [ ] TASK-71 fix login'') ''TASK-7'' =
     Some (0, ''- [ ] TASK-71 fix login'')"
    by code_simp
  show "pt_find_task_in_file (Some ''### [TASK-71] fix login'') ''TASK-7'' =
     Some (0, [''### [TASK-71] fix login''])"
    by code_simp
qed

text \<open>
  An instance: the first line mentions \<open>TASK-7\<close> without a marker and is skipped; the
  second is the record of \<open>TASK-71\<close> and is returned, before the record of
  \<open>TASK-7\<close> itself.
\<close>

theorem locator_matches_by_substring_witness:
  "at_find_task_in_file
     (Some ''Notes on TASK-7\<newline>- [ ] TASK-71 fix login\<newline>- [ ] TASK-7 write docs'') ''TASK-7'' =
   Some (1, ''- [ ] TASK-71 fix login'')"
proof -
  let ?c = "''Notes on TASK-7\<newline>- [ ] TASK-71 fix login\<newline>- [ ] TASK-7 write docs''"
  have sp: "split_lines ?c =
      [''Notes on TASK-7'', ''- [ ] TASK-71 fix login'', ''- [ ] TASK-7 write docs'']"
    by simp
  have ex: "\<exists>pre post. ''- [ ] TASK-71 fix login'' = pre @ ''TASK-7'' @ post"
    by (intro exI [of _ "''- [ ] ''"] exI [of _ "''1 fix login''"]) simp
  have mk: "str_in ''- ['' ''- [ ] TASK-71 fix login''"
    by code_simp
  have no0: "\<not> (str_in ''- ['' ''Notes on TASK-7'' \<or> str_in ''##'' ''Notes on TASK-7'')"
    by code_simp
  show ?thesis
    using locator_matches_by_substring [of ?c "''TASK-7''" 1 "''- [ ] TASK-71 fix login''"]
      sp ex mk no0
    by simp
qed

text \<open>
  C1, as amended.  A locator answers not-found exactly when no line of the document
  contains both the identifier and a marker (\<open>- [\<close> or \<open>##\<close> for archive-task.py,
  \<open>###\<close> for promote-task.py), each anywhere in the line.  Lines that contain the
  identifier and no marker are ignored.
\<close>

theorem locate_not_found_iff_no_marker_line:
  "(at_find_task_in_file (Some content) task_id = None \<longleftrightarrow>
      (\<forall>l \<in> set (split_lines content).
         \<not> (str_in task_id l \<and> (str_in ''- ['' l \<or> str_in ''##'' l)))) \<and>
   (pt_find_task_in_file (Some content) task_id = None \<longleftrightarrow>
      (\<forall>l \<in> set (split_lines content).
         \<not> (str_in task_id l \<and> (str_in ''####'' l \<or> str_in ''###'' l))))"
  by (simp add: at_find_task_in_file_def pt_find_task_in_file_def Let_def
      at_find_loop_None pt_find_loop_None at_task_line_def pt_task_line_def)

theorem locate_not_found_iff_no_marker_line_witness:
  "at_find_task_in_file (Some ''# Board\<newline>TASK-071 is blocked\<newline>- [ ] TASK-072 other'') ''TASK-071'' = None \<and>
   pt_find_task_in_file (Some ''# Board\<newline>TASK-071 is blocked\<newline>### TASK-072 other'') ''TASK-071'' = None"
proof -
  have a: "\<forall>l \<in> set (split_lines ''# Board\<newline>TASK-071 is blocked\<newline>- [ ] TASK-072 other'').
         \<not> (str_in ''TASK-071'' l \<and> (str_in ''- ['' l \<or> str_in ''##'' l))"
    by code_simp
  have b: "\<forall>l \<in> set (split_lines ''# Board\<newline>TASK-071 is blocked\<newline>### TASK-072 other'').
         \<not> (str_in ''TASK-071'' l \<and> (str_in ''####'' l \<or> str_in ''###'' l))"
    by code_simp
  show ?thesis
    using locate_not_found_iff_no_marker_line
        [of "''# Board\<newline>TASK-071 is blocked\<newline>- [ ] TASK-072 other''" "''TASK-071''"]
      locate_not_found_iff_no_marker_line
        [of "''# Board\<newline>TASK-071 is blocked\<newline>### TASK-072 other''" "''TASK-071''"] a b
    by blast
qed

text \<open>
  The claim as stated fails: a prose line that mentions a marker in passing does not
  structurally start a record, yet both locators return it.
\<close>

theorem locate_prose_marker_counterexample:
  "split_lines ''Depends on TASK-071 (see the ## Backlog heading)'' =
     [''Depends on TASK-071 (see the ## Backlog heading)''] \<and>
   \<not> spec_record_start ''Depends on TASK-071 (see the ## Backlog heading)'' \<and>
   at_find_task_in_file (Some ''Depends on TASK-071 (see the ## Backlog heading)'') ''TASK-071'' =
     Some (0, ''Depends on TASK-071 (see the ## Backlog heading)'') \<and>
   \<not> spec_record_start ''Related to TASK-071: ### Details below'' \<and>
   pt_find_task_in_file (Some ''Related to TASK-071: ### Details below'') ''TASK-071'' =
     Some (0, [''Related to TASK-071: ### Details below''])"
  by code_simp

section \<open>Properties of the record extent\<close>

lemma at_main_collect_extent:
  "\<exists>n. at_main_collect lines s i acc = acc @ take n (drop i lines) \<and> i + n \<le> max i (length lines) \<and>
     (\<forall>k. i \<le> k \<and> k < i + n \<longrightarrow>
        \<not> (startswith (lines ! k) ''- ['' \<or> (startswith (lines ! k) ''##'' \<and> s + 1 < k))) \<and>
     (i + n < length lines \<longrightarrow>
        startswith (lines ! (i + n)) ''- ['' \<or> (startswith (lines ! (i + n)) ''##'' \<and> s + 1 < i + n))"
proof (induction lines s i acc rule: at_main_collect.induct)
  case (1 lines s i acc)
  let ?stop = "\<lambda>k. startswith (lines ! k) ''- ['' \<or> (startswith (lines ! k) ''##'' \<and> s + 1 < k)"
  show ?case
  proof (cases "i < length lines")
    case False
    then have "at_main_collect lines s i acc = acc"
      by (subst at_main_collect.simps) simp
    with False show ?thesis by (intro exI [of _ 0]) auto
  next
    case True
    show ?thesis
    proof (cases "?stop i")
      case True
      then have "at_main_collect lines s i acc = acc"
        using \<open>i < length lines\<close> by (subst at_main_collect.simps) auto
      with True \<open>i < length lines\<close> show ?thesis by (intro exI [of _ 0]) auto
    next
      case False
      have step: "at_main_collect lines s i acc = at_main_collect lines s (Suc i) (acc @ [lines ! i])"
        using False True by (subst at_main_collect.simps) auto
      from "1.IH" [OF True] False
      obtain n where n: "at_main_collect lines s (Suc i) (acc @ [lines ! i]) =
            (acc @ [lines ! i]) @ take n (drop (Suc i) lines)"
          "Suc i + n \<le> max (Suc i) (length lines)"
          "\<forall>k. Suc i \<le> k \<and> k < Suc i + n \<longrightarrow> \<not> ?stop k"
          "Suc i + n < length lines \<longrightarrow> ?stop (Suc i + n)"
        by auto
      have d: "drop i lines = lines ! i # drop (Suc i) lines"
        using True by (simp add: Cons_nth_drop_Suc)
      have a: "at_main_collect lines s i acc = acc @ take (Suc n) (drop i lines)"
        using step n(1) d by simp
      have b: "i + Suc n \<le> max i (length lines)"
        using n(2) True by simp
      have c: "\<forall>k. i \<le> k \<and> k < i + Suc n \<longrightarrow> \<not> ?stop k"
      proof (intro allI impI)
        fix k assume k: "i \<le> k \<and> k < i + Suc n"
        show "\<not> ?stop k"
        proof (cases "k = i")
          case True
          with False show ?thesis by simp
        next
          case False
          with k have "Suc i \<le> k \<and> k < Suc i + n" by simp
          with n(3) show ?thesis by blast
        qed
      qed
      have e: "i + Suc n < length lines \<longrightarrow> ?stop (i + Suc n)"
        using n(4) by simp
      show ?thesis
        using a b c e by (intro exI [of _ "Suc n"]) blast
    qed
  qed
qed

lemma takeWhile_extent:
  "\<exists>n. takeWhile P xs = take n xs \<and> n \<le> length xs \<and> (\<forall>k < n. P (xs ! k)) \<and>
     (n < length xs \<longrightarrow> \<not> P (xs ! n))"
proof (intro exI [of _ "length (takeWhile P xs)"] conjI allI impI)
  show "takeWhile P xs = take (length (takeWhile P xs)) xs"
    by (rule takeWhile_eq_take)
  show "length (takeWhile P xs) \<le> length xs"
    by (rule length_takeWhile_le)
  show "P (xs ! k)" if "k < length (takeWhile P xs)" for k
    using that by (metis nth_mem set_takeWhileD takeWhile_nth)
  show "\<not> P (xs ! length (takeWhile P xs))" if "length (takeWhile P xs) < length xs"
    using that by (rule nth_length_takeWhile)
qed


section \<open>Claims about the record extent\<close>

text \<open>
  C2, as amended.  When some line contains the identifier and a marker, the locator
  returns a start index \<open>i\<close> and the \<open>n > 0\<close> contiguous lines from \<open>i\<close> on; line \<open>i\<close>
  contains the identifier; no line of the range after the first is a stop line, and
  the range ends at the end of the document or right before a stop line.  In
  archive-task.py (\<open>main\<close>) a stop line starts with \<open>- [\<close>, or starts with \<open>##\<close> and is
  not the line right after the start.  In promote-task.py a stop line starts with
  \<open>###\<close>, or starts with \<open>- [\<close> and contains \<open>TASK-\<close>.  Heading depth is not compared.
\<close>

theorem located_range_extent:
  fixes content task_id :: string
  defines "L \<equiv> split_lines content"
  shows
  "((\<exists>l \<in> set L. str_in task_id l \<and> (str_in ''- ['' l \<or> str_in ''##'' l)) \<longrightarrow>
      (\<exists>i n. at_main_task_lines content task_id = Some (i, take n (drop i L)) \<and>
         0 < n \<and> i + n \<le> length L \<and> str_in task_id (L ! i) \<and>
         (\<forall>k. i < k \<and> k < i + n \<longrightarrow>
            \<not> (startswith (L ! k) ''- ['' \<or> (startswith (L ! k) ''##'' \<and> i + 1 < k))) \<and>
         (i + n < length L \<longrightarrow>
            startswith (L ! (i + n)) ''- ['' \<or>
            (startswith (L ! (i + n)) ''##'' \<and> i + 1 < i + n)))) \<and>
   ((\<exists>l \<in> set L. str_in task_id l \<and> (str_in ''####'' l \<or> str_in ''###'' l)) \<longrightarrow>
      (\<exists>i n. pt_find_task_in_file (Some content) task_id = Some (i, take n (drop i L)) \<and>
         0 < n \<and> i + n \<le> length L \<and> str_in task_id (L ! i) \<and>
         (\<forall>k. i < k \<and> k < i + n \<longrightarrow>
            \<not> (startswith (L ! k) ''###'' \<or>
               (startswith (L ! k) ''- ['' \<and> str_in ''TASK-'' (L ! k)))) \<and>
         (i + n < length L \<longrightarrow>
            startswith (L ! (i + n)) ''###'' \<or>
            (startswith (L ! (i + n)) ''- ['' \<and> str_in ''TASK-'' (L ! (i + n))))))"
proof (intro conjI impI)
  assume "\<exists>l \<in> set L. str_in task_id l \<and> (str_in ''- ['' l \<or> str_in ''##'' l)"
  then have "at_find_loop 0 L task_id \<noteq> None"
    by (simp add: at_find_loop_None at_task_line_def)
  then obtain i line where f: "at_find_loop 0 L task_id = Some (i, line)"
    by auto
  then have i: "i < length L" "at_task_line task_id (L ! i)"
    by (auto simp: at_find_loop_Some)
  obtain m where m: "at_main_collect L i (i + 1) [L ! i] = [L ! i] @ take m (drop (i + 1) L)"
      "i + 1 + m \<le> max (i + 1) (length L)"
      "\<forall>k. i + 1 \<le> k \<and> k < i + 1 + m \<longrightarrow>
         \<not> (startswith (L ! k) ''- ['' \<or> (startswith (L ! k) ''##'' \<and> i + 1 < k))"
      "i + 1 + m < length L \<longrightarrow>
         startswith (L ! (i + 1 + m)) ''- ['' \<or> (startswith (L ! (i + 1 + m)) ''##'' \<and> i + 1 < i + 1 + m)"
    using at_main_collect_extent [of L i "i + 1" "[L ! i]"] by blast
  have t: "take (Suc m) (drop i L) = [L ! i] @ take m (drop (i + 1) L)"
    using i(1) by (simp add: Cons_nth_drop_Suc [symmetric])
  have r: "at_main_task_lines content task_id = Some (i, take (Suc m) (drop i L))"
    using f m(1) t by (simp add: at_main_task_lines_def at_find_task_in_file_def L_def Let_def)
  show "\<exists>i n. at_main_task_lines content task_id = Some (i, take n (drop i L)) \<and>
         0 < n \<and> i + n \<le> length L \<and> str_in task_id (L ! i) \<and>
         (\<forall>k. i < k \<and> k < i + n \<longrightarrow>
            \<not> (startswith (L ! k) ''- ['' \<or> (startswith (L ! k) ''##'' \<and> i + 1 < k))) \<and>
         (i + n < length L \<longrightarrow>
            startswith (L ! (i + n)) ''- ['' \<or>
            (startswith (L ! (i + n)) ''##'' \<and> i + 1 < i + n))"
  proof (rule exI [of _ i], rule exI [of _ "Suc m"], intro conjI)
    show "at_main_task_lines content task_id = Some (i, take (Suc m) (drop i L))" by (rule r)
    show "0 < Suc m" by simp
    show "i + Suc m \<le> length L" using m(2) i(1) by simp
    show "str_in task_id (L ! i)" using i(2) by (simp add: at_task_line_def)
    show "\<forall>k. i < k \<and> k < i + Suc m \<longrightarrow>
            \<not> (startswith (L ! k) ''- ['' \<or> (startswith (L ! k) ''##'' \<and> i + 1 < k))"
      using m(3) by simp
    show "i + Suc m < length L \<longrightarrow>
            startswith (L ! (i + Suc m)) ''- ['' \<or>
            (startswith (L ! (i + Suc m)) ''##'' \<and> i + 1 < i + Suc m)"
      using m(4) by simp
  qed
next
  let ?P = "\<lambda>l. \<not> pt_stop_line l"
  assume "\<exists>l \<in> set L. str_in task_id l \<and> (str_in ''####'' l \<or> str_in ''###'' l)"
  then have "pt_find_loop L 0 L task_id \<noteq> None"
    by (simp add: pt_find_loop_None pt_task_line_def)
  then obtain i rng where f: "pt_find_loop L 0 L task_id = Some (i, rng)"
    by auto
  then have i: "i < length L" "pt_task_line task_id (L ! i)"
      "rng = L ! i # takeWhile ?P (drop (Suc i) L)"
    by (auto simp: pt_find_loop_Some)
  obtain m where m: "takeWhile ?P (drop (Suc i) L) = take m (drop (Suc i) L)"
      "m \<le> length (drop (Suc i) L)"
      "\<forall>k < m. ?P (drop (Suc i) L ! k)"
      "m < length (drop (Suc i) L) \<longrightarrow> \<not> ?P (drop (Suc i) L ! m)"
    using takeWhile_extent [of ?P "drop (Suc i) L"] by blast
  have st: "\<And>l. pt_stop_line l \<longleftrightarrow>
      startswith l ''###'' \<or> (startswith l ''- ['' \<and> str_in ''TASK-'' l)"
    by (auto simp: pt_stop_line_def startswith_def prefix_def)
  have t: "take (Suc m) (drop i L) = L ! i # take m (drop (Suc i) L)"
    using i(1) by (simp add: Cons_nth_drop_Suc [symmetric])
  have r: "pt_find_task_in_file (Some content) task_id = Some (i, take (Suc m) (drop i L))"
    using f i(3) m(1) t by (simp add: pt_find_task_in_file_def L_def Let_def)
  show "\<exists>i n. pt_find_task_in_file (Some content) task_id = Some (i, take n (drop i L)) \<and>
         0 < n \<and> i + n \<le> length L \<and> str_in task_id (L ! i) \<and>
         (\<forall>k. i < k \<and> k < i + n \<longrightarrow>
            \<not> (startswith (L ! k) ''###'' \<or>
               (startswith (L ! k) ''- ['' \<and> str_in ''TASK-'' (L ! k)))) \<and>
         (i + n < length L \<longrightarrow>
            startswith (L ! (i + n)) ''###'' \<or>
            (startswith (L ! (i + n)) ''- ['' \<and> str_in ''TASK-'' (L ! (i + n))))"
  proof (rule exI [of _ i], rule exI [of _ "Suc m"], intro conjI)
    show "pt_find_task_in_file (Some content) task_id = Some (i, take (Suc m) (drop i L))"
      by (rule r)
    show "0 < Suc m" by simp
    show "i + Suc m \<le> length L" using m(2) i(1) by simp
    show "str_in task_id (L ! i)" using i(2) by (simp add: pt_task_line_def)
    show "\<forall>k. i < k \<and> k < i + Suc m \<longrightarrow>
            \<not> (startswith (L ! k) ''###'' \<or>
               (startswith (L ! k) ''- ['' \<and> str_in ''TASK-'' (L ! k)))"
    proof (intro allI impI)
      fix k assume k: "i < k \<and> k < i + Suc m"
      define j where "j = k - Suc i"
      have j: "j < m" "k = Suc i + j"
        using k by (auto simp: j_def)
      have "Suc i \<le> length L"
        using i(1) by simp
      then have "drop (Suc i) L ! j = L ! k"
        unfolding j(2) by (rule nth_drop)
      moreover have "?P (drop (Suc i) L ! j)"
        using m(3) j(1) by blast
      ultimately have "?P (L ! k)"
        by simp
      then show "\<not> (startswith (L ! k) ''###'' \<or>
               (startswith (L ! k) ''- ['' \<and> str_in ''TASK-'' (L ! k)))"
        by (simp add: st)
    qed
    show "i + Suc m < length L \<longrightarrow>
            startswith (L ! (i + Suc m)) ''###'' \<or>
            (startswith (L ! (i + Suc m)) ''- ['' \<and> str_in ''TASK-'' (L ! (i + Suc m)))"
    proof
      assume a: "i + Suc m < length L"
      then have "m < length (drop (Suc i) L)" by simp
      with m(4) have "pt_stop_line (drop (Suc i) L ! m)" by simp
      moreover have "drop (Suc i) L ! m = L ! (i + Suc m)"
        using a by simp
      ultimately show "startswith (L ! (i + Suc m)) ''###'' \<or>
            (startswith (L ! (i + Suc m)) ''- ['' \<and> str_in ''TASK-'' (L ! (i + Suc m)))"
        by (simp add: st)
    qed
  qed
qed



theorem located_range_extent_witness:
  "(\<exists>l \<in> set (split_lines ''### TASK-1 alpha\<newline>body\<newline>- [ ] TASK-2 beta\<newline>'').
      str_in ''TASK-1'' l \<and> (str_in ''- ['' l \<or> str_in ''##'' l)) \<and>
   (\<exists>l \<in> set (split_lines ''### TASK-1 alpha\<newline>body\<newline>- [ ] TASK-2 beta\<newline>'').
      str_in ''TASK-1'' l \<and> (str_in ''####'' l \<or> str_in ''###'' l)) \<and>
   (\<exists>i n. at_main_task_lines ''### TASK-1 alpha\<newline>body\<newline>- [ ] TASK-2 beta\<newline>'' ''TASK-1'' =
        Some (i, take n (drop i
          (split_lines ''### TASK-1 alpha\<newline>body\<newline>- [ ] TASK-2 beta\<newline>''))) \<and> 0 < n) \<and>
   (\<exists>i n. pt_find_task_in_file (Some ''### TASK-1 alpha\<newline>body\<newline>- [ ] TASK-2 beta\<newline>'') ''TASK-1'' =
        Some (i, take n (drop i
          (split_lines ''### TASK-1 alpha\<newline>body\<newline>- [ ] TASK-2 beta\<newline>''))) \<and> 0 < n)"
proof -
  let ?C = "''### TASK-1 alpha\<newline>body\<newline>- [ ] TASK-2 beta\<newline>''"
  have h1: "\<exists>l \<in> set (split_lines ?C). str_in ''TASK-1'' l \<and> (str_in ''- ['' l \<or> str_in ''##'' l)"
    by code_simp
  have h2: "\<exists>l \<in> set (split_lines ?C). str_in ''TASK-1'' l \<and> (str_in ''####'' l \<or> str_in ''###'' l)"
    by code_simp
  show ?thesis
    using located_range_extent [of ?C "''TASK-1''"] h1 h2 by blast
qed

text \<open>
  The claim as stated fails.  In archive-task.py a heading of the same depth right
  after the start line is taken into the range; in promote-task.py a shallower heading
  (\<open>## Archive\<close>) does not end the range of a \<open>###\<close> record.
\<close>

theorem located_range_counterexample:
  "at_main_task_lines ''## TASK-1 alpha\<newline>## TASK-2 beta\<newline>notes'' ''TASK-1'' =
     Some (0, [''## TASK-1 alpha'', ''## TASK-2 beta'', ''notes'']) \<and>
   spec_range (split_lines ''## TASK-1 alpha\<newline>## TASK-2 beta\<newline>notes'') 0 =
     [''## TASK-1 alpha''] \<and>
   pt_find_task_in_file (Some ''### TASK-1 alpha\<newline>body\<newline>## Archive\<newline>old'') ''TASK-1'' =
     Some (0, [''### TASK-1 alpha'', ''body'', ''## Archive'', ''old'']) \<and>
   spec_range (split_lines ''### TASK-1 alpha\<newline>body\<newline>## Archive\<newline>old'') 0 =
     [''### TASK-1 alpha'', ''body'']"
  by code_simp

section \<open>Properties of marking a task completed\<close>



lemma universal_newlines_id: "CR \<notin> set c \<Longrightarrow> universal_newlines c = c"
  by (induction c rule: universal_newlines.induct) auto








text \<open>
  The claim as stated fails for a file with the line end \<open>\r\n\<close>: the ticked task is
  found, and the file is written back with the line end \<open>\n\<close>.
\<close>

theorem mark_completed_crlf_counterexample:
  "mark_task_completed
     \<lparr>files = [([''repo'', ''P0TODO.md''], ''- [x] TASK-071 fix login'' @ [CR, NL])],
      dirs = [[''repo'']]\<rparr>
     [''repo'', ''P0TODO.md''] ''TASK-071'' False =
   (True,
    \<lparr>files = [([''repo'', ''P0TODO.md''], ''- [x] TASK-071 fix login'' @ [NL])],
      dirs = [[''repo'']]\<rparr>,
    [CHECK @ '' Marked TASK-071 as completed in repo/P0TODO.md''])"
  by code_simp


section \<open>Properties of the ID allocator\<close>








lemma show_nat_not_Nil: "show_nat n \<noteq> []"
  by (subst show_nat.simps) simp




lemma takeWhile_digits_run:
  assumes "list_all is_digit ds" and "rest = [] \<or> \<not> is_digit (hd rest)"
  shows "takeWhile is_digit (ds @ rest) = ds" and "dropWhile is_digit (ds @ rest) = rest"
proof -
  have a: "\<forall>c \<in> set ds. is_digit c"
    using assms(1) by (simp add: list_all_iff)
  have b: "takeWhile is_digit rest = []" "dropWhile is_digit rest = rest"
    using assms(2) by (cases rest; simp)+
  show "takeWhile is_digit (ds @ rest) = ds"
    using a b by (simp add: takeWhile_append2)
  show "dropWhile is_digit (ds @ rest) = rest"
    using a b by (simp add: dropWhile_append2)
qed



lemma split_at_fresh:
  assumes "a @ h # y = x @ r" and "h \<notin> set x"
  shows "\<exists>b. a = x @ b \<and> r = b @ h # y"
proof -
  from assms(1) consider us where "a = x @ us" "us @ h # y = r"
    | us where "a @ us = x" "h # y = us @ r"
    by (auto simp: append_eq_append_conv2)
  then show ?thesis
  proof cases
    case 1
    then show ?thesis by auto
  next
    case 2
    show ?thesis
    proof (cases us)
      case Nil
      with 2 show ?thesis by auto
    next
      case (Cons u us')
      with 2 have "h \<in> set x" by auto
      with assms(2) show ?thesis by simp
    qed
  qed
qed

lemma re_findall_hitl_unfold:
  "re_findall_id ''HITL-'' [] = []"
  "prefix ''HITL-'' s \<Longrightarrow> takeWhile is_digit (drop (length ''HITL-'') s) \<noteq> [] \<Longrightarrow>
     re_findall_id ''HITL-'' s =
       takeWhile is_digit (drop (length ''HITL-'') s) #
       re_findall_id ''HITL-'' (dropWhile is_digit (drop (length ''HITL-'') s))"
  "\<not> (prefix ''HITL-'' (c # cs) \<and> takeWhile is_digit (drop (length ''HITL-'') (c # cs)) \<noteq> []) \<Longrightarrow>
     re_findall_id ''HITL-'' (c # cs) = re_findall_id ''HITL-'' cs"
proof -
  show "re_findall_id ''HITL-'' [] = []"
    by (subst re_findall_id.simps) simp
  show "re_findall_id ''HITL-'' s =
       takeWhile is_digit (drop (length ''HITL-'') s) #
       re_findall_id ''HITL-'' (dropWhile is_digit (drop (length ''HITL-'') s))"
    if "prefix ''HITL-'' s" "takeWhile is_digit (drop (length ''HITL-'') s) \<noteq> []"
  proof -
    from that(1) have "s \<noteq> []" by auto
    with that show ?thesis
      by (subst re_findall_id.simps) (simp only: if_True if_False simp_thms)
  qed
  show "re_findall_id ''HITL-'' (c # cs) = re_findall_id ''HITL-'' cs"
    if "\<not> (prefix ''HITL-'' (c # cs) \<and> takeWhile is_digit (drop (length ''HITL-'') (c # cs)) \<noteq> [])"
    using that by (subst re_findall_id.simps) (simp only: if_False list.sel list.distinct simp_thms)
qed

lemma spec_id_tokensI:
  assumes "ds \<noteq> []" and "list_all is_digit ds" and "content = before @ pre @ ds @ rest"
    and "rest = [] \<or> \<not> is_digit (hd rest)"
  shows "ds \<in> spec_id_tokens pre content"
  unfolding spec_id_tokens_def using assms by blast

lemma spec_id_tokensE:
  assumes "ds \<in> spec_id_tokens pre content"
  obtains before rest where "ds \<noteq> []" and "list_all is_digit ds"
    and "content = before @ pre @ ds @ rest" and "rest = [] \<or> \<not> is_digit (hd rest)"
  using assms unfolding spec_id_tokens_def by blast

lemma re_findall_hitl_tokens:
  "set (re_findall_id ''HITL-'' s) = spec_id_tokens ''HITL-'' s"
proof (induction s rule: length_induct)
  case (1 s)
  let ?D = "takeWhile is_digit (drop (length ''HITL-'') s)"
  let ?R = "dropWhile is_digit (drop (length ''HITL-'') s)"
  have notH: "\<not> is_digit (CHR ''H'')"
    by (simp add: is_digit_def)
  show ?case
  proof (cases s)
    case Nil
    then show ?thesis
      by (auto simp: re_findall_hitl_unfold(1) spec_id_tokens_def)
  next
    case (Cons c cs)
    show ?thesis
    proof (cases "prefix ''HITL-'' s \<and> ?D \<noteq> []")
      case True
      then obtain t where t: "s = ''HITL-'' @ t"
        by (auto elim: prefixE)
      then have "drop (length ''HITL-'') s = t"
        by simp
      then have tDR: "t = ?D @ ?R"
        by (metis takeWhile_dropWhile_id)
      with t have s: "s = ''HITL-'' @ ?D @ ?R"
        by simp
      have "length ?R \<le> length (drop (length ''HITL-'') s)"
        by (rule length_dropWhile_le)
      also have "\<dots> < length s"
        by (subst (2) t, subst t) simp
      finally have lenR: "length ?R < length s" .
      have ih: "set (re_findall_id ''HITL-'' ?R) = spec_id_tokens ''HITL-'' ?R"
        using "1.IH" lenR by blast
      have unf: "re_findall_id ''HITL-'' s = ?D # re_findall_id ''HITL-'' ?R"
        using True by (simp add: re_findall_hitl_unfold(2))
      have digD: "list_all is_digit ?D"
        by (simp add: list_all_iff) (meson set_takeWhileD)
      have endR: "?R = [] \<or> \<not> is_digit (hd ?R)"
        by (metis hd_dropWhile)
      have "spec_id_tokens ''HITL-'' s = insert ?D (spec_id_tokens ''HITL-'' ?R)"
      proof (intro set_eqI iffI)
        fix ds assume "ds \<in> spec_id_tokens ''HITL-'' s"
        then obtain before rest where t: "ds \<noteq> []" "list_all is_digit ds"
            "s = before @ ''HITL-'' @ ds @ rest" "rest = [] \<or> \<not> is_digit (hd rest)"
          by (rule spec_id_tokensE)
        show "ds \<in> insert ?D (spec_id_tokens ''HITL-'' ?R)"
        proof (cases before)
          case Nil
          with t(3) have "drop (length ''HITL-'') s = ds @ rest" by simp
          then have "?D = ds"
            using takeWhile_digits_run(1) [OF t(2) t(4)] by simp
          then show ?thesis by simp
        next
          case (Cons b bs)
          with t(3) s have e: "b # bs @ ''HITL-'' @ ds @ rest = ''HITL-'' @ ?D @ ?R"
            by simp
          then have eq: "bs @ CHR ''H'' # (''ITL-'' @ ds @ rest) = (''ITL-'' @ ?D) @ ?R"
            by simp
          have fr: "CHR ''H'' \<notin> set (''ITL-'' @ ?D)"
            using digD notH by (auto simp: list_all_iff)
          from split_at_fresh [OF eq fr]
          obtain b' where "?R = b' @ CHR ''H'' # (''ITL-'' @ ds @ rest)"
            by (elim exE conjE)
          then have "?R = b' @ ''HITL-'' @ ds @ rest"
            by simp
          with t(1,2) have "ds \<in> spec_id_tokens ''HITL-'' ?R"
            using t(4) by (rule spec_id_tokensI)
          then show ?thesis by simp
        qed
      next
        fix ds assume "ds \<in> insert ?D (spec_id_tokens ''HITL-'' ?R)"
        then consider "ds = ?D" | "ds \<in> spec_id_tokens ''HITL-'' ?R" by auto
        then show "ds \<in> spec_id_tokens ''HITL-'' s"
        proof cases
          case 1
          have "s = [] @ ''HITL-'' @ ?D @ ?R"
            using s by simp
          with True digD have "?D \<in> spec_id_tokens ''HITL-'' s"
            using endR by (intro spec_id_tokensI [where before = "[]" and rest = "?R"]) simp_all
          with 1 show ?thesis by simp
        next
          case 2
          then obtain before rest where t: "ds \<noteq> []" "list_all is_digit ds"
              "?R = before @ ''HITL-'' @ ds @ rest" "rest = [] \<or> \<not> is_digit (hd rest)"
            by (rule spec_id_tokensE)
          have "s = ''HITL-'' @ ?D @ before @ ''HITL-'' @ ds @ rest"
            using s t(3) by metis
          then have "s = (''HITL-'' @ ?D @ before) @ ''HITL-'' @ ds @ rest"
            by simp
          with t(1,2) show ?thesis
            using t(4) by (rule spec_id_tokensI)
        qed
      qed
      with unf ih show ?thesis by simp
    next
      case False
      have unf: "re_findall_id ''HITL-'' s = re_findall_id ''HITL-'' cs"
        using False Cons by (simp add: re_findall_hitl_unfold(3))
      have ih: "set (re_findall_id ''HITL-'' cs) = spec_id_tokens ''HITL-'' cs"
        using "1.IH" Cons by simp
      have "spec_id_tokens ''HITL-'' s = spec_id_tokens ''HITL-'' cs"
      proof (intro set_eqI iffI)
        fix ds assume "ds \<in> spec_id_tokens ''HITL-'' s"
        then obtain before rest where t: "ds \<noteq> []" "list_all is_digit ds"
            "s = before @ ''HITL-'' @ ds @ rest" "rest = [] \<or> \<not> is_digit (hd rest)"
          by (rule spec_id_tokensE)
        show "ds \<in> spec_id_tokens ''HITL-'' cs"
        proof (cases before)
          case Nil
          with t(3) have p: "prefix ''HITL-'' s" and "drop (length ''HITL-'') s = ds @ rest"
            by simp_all
          then have "?D = ds"
            using takeWhile_digits_run(1) [OF t(2) t(4)] by simp
          with p t(1) False show ?thesis by simp
        next
          case (Cons b bs)
          with t(3) \<open>s = c # cs\<close> have "cs = bs @ ''HITL-'' @ ds @ rest"
            by simp
          with t(1,2) show ?thesis
            using t(4) by (rule spec_id_tokensI)
        qed
      next
        fix ds assume "ds \<in> spec_id_tokens ''HITL-'' cs"
        then obtain before rest where t: "ds \<noteq> []" "list_all is_digit ds"
            "cs = before @ ''HITL-'' @ ds @ rest" "rest = [] \<or> \<not> is_digit (hd rest)"
          by (rule spec_id_tokensE)
        have "s = (c # before) @ ''HITL-'' @ ds @ rest"
          using Cons t(3) by simp
        with t(1,2) show "ds \<in> spec_id_tokens ''HITL-'' s"
          using t(4) by (rule spec_id_tokensI)
      qed
      with unf ih show ?thesis by simp
    qed
  qed
qed


lemma read_text_exists: "read_text s p = Inr content \<Longrightarrow> path_exists s p"
  by (auto simp: read_text_def path_exists_def is_file_def split: if_splits option.splits)

lemma chars_of_ascii: "\<forall>c \<in> set s. (of_char c :: int) < 0x80 \<Longrightarrow> chars_of s = lit s"
proof (induction s)
  case Nil
  show ?case
    by (subst chars_of.simps) (simp add: lit_def)
next
  case (Cons c s)
  then have "utf8_len c = 1"
    by (simp add: utf8_len_def)
  with Cons show ?case
    by (subst chars_of.simps) (simp add: lit_def)
qed

lemma decimal_value_ascii:
  assumes "(of_char c :: int) < 0x80"
  shows "(case decimal_value [c] of None \<Rightarrow> [c] | Some v \<Rightarrow> [digit_char v]) = [c]"
proof -
  let ?x = "of_char c :: int"
  have cp: "cp_of [c] = ?x"
    by (simp add: cp_of_def)
  have f: "filter (\<lambda>z. z \<le> ?x \<and> ?x < z + 10) decimal_starts =
           (if 0x30 \<le> ?x \<and> ?x < 0x3A then [0x30] else [])"
    using assms by (simp add: decimal_starts_def)
  show ?thesis
  proof (cases "0x30 \<le> ?x \<and> ?x < 0x3A")
    case False
    then have "filter (\<lambda>z. z \<le> ?x \<and> ?x < z + 10) decimal_starts = []"
      unfolding f by simp
    then show ?thesis
      by (simp add: decimal_value_def cp)
  next
    case True
    have n: "nat ?x = (of_char c :: nat)"
      by (metis nat_int of_nat_of_char)
    have "48 + nat (?x - 0x30) = nat ?x"
      using True by linarith
    then have "48 + nat (?x - 0x30) = (of_char c :: nat)"
      by (simp only: n)
    then have "digit_char (nat (?x - 0x30)) = c"
      by (simp add: digit_char_def)
    moreover from True have "filter (\<lambda>z. z \<le> ?x \<and> ?x < z + 10) decimal_starts = [0x30]"
      unfolding f by simp
    ultimately show ?thesis
      by (simp add: decimal_value_def cp)
  qed
qed

lemma ascii_digits_ascii:
  assumes "\<forall>c \<in> set s. (of_char c :: int) < 0x80"
  shows "ascii_digits s = s"
proof -
  have "concat (map (\<lambda>ch. case decimal_value ch of None \<Rightarrow> ch | Some v \<Rightarrow> [digit_char v])
          (lit s)) = s"
    using assms by (induction s) (simp_all add: lit_def decimal_value_ascii)
  then show ?thesis
    by (simp add: ascii_digits_def chars_of_ascii [OF assms])
qed

lemma utf8_ok_ascii:
  assumes "\<forall>c \<in> set s. (of_char c :: int) < 0x80"
  shows "utf8_ok s"
proof -
  have "list_all utf8_char_ok (lit s)"
    using assms by (induction s) (simp_all add: lit_def utf8_char_ok_def utf8_len_def)
  then show ?thesis
    by (simp add: utf8_ok_def chars_of_ascii [OF assms])
qed


lemma py_ints_long:
  "\<exists>d \<in> set ds. max_str_digits < length d \<Longrightarrow> py_ints ds = Inl ValueError"
proof (induction ds)
  case Nil
  then show ?case by simp
next
  case (Cons d ds)
  show ?case
  proof (cases "max_str_digits < length d")
    case True
    then show ?thesis by (simp add: py_int_def)
  next
    case False
    with Cons.prems have "\<exists>d \<in> set ds. max_str_digits < length d"
      by auto
    with Cons.IH have "py_ints ds = Inl ValueError"
      by simp
    with False show ?thesis by (simp add: py_int_def)
  qed
qed



lemma get_next_hitl_id_long:
  assumes "read_text s p = Inr content"
    and "ds \<in> spec_id_tokens ''HITL-'' (ascii_digits content)" and "max_str_digits < length ds"
  shows "get_next_hitl_id s p = Inl ValueError"
proof -
  let ?ids = "re_findall_id ''HITL-'' (ascii_digits content)"
  have t: "set ?ids = spec_id_tokens ''HITL-'' (ascii_digits content)"
    by (rule re_findall_hitl_tokens)
  with assms(2) have ne: "?ids \<noteq> []"
    by auto
  have "\<exists>d \<in> set ?ids. max_str_digits < length d"
    using assms(2,3) t by blast
  then have ints: "py_ints ?ids = Inl ValueError"
    by (rule py_ints_long)
  have ex: "path_exists s p"
    using assms(1) by (rule read_text_exists)
  show ?thesis
    by (simp only: get_next_hitl_id_def Let_def ex assms(1) sum.case ne ints if_False simp_thms)
qed




text \<open>
  The claim as stated fails for an index document that holds an identifier with 4301
  digits: \<open>int\<close> raises, and no identifier is returned.
\<close>

theorem allocate_long_suffix_counterexample:
  "get_next_hitl_id
     \<lparr>files = [([''HITL.md''], ''HITL-'' @ replicate 4301 (CHR ''1''))], dirs = []\<rparr>
     [''HITL.md''] = Inl ValueError"
proof -
  let ?ds = "replicate 4301 (CHR ''1'')"
  let ?c = "''HITL-'' @ ?ds"
  let ?s = "\<lparr>files = [([''HITL.md''], ?c)], dirs = []\<rparr>"
  have "CR \<notin> set ?c"
    by simp
  then have "universal_newlines ?c = ?c"
    by (rule universal_newlines_id)
  then have r: "read_text ?s [''HITL.md''] = Inr ?c"
    by (simp add: read_text_def is_dir_def)
  have "\<forall>c \<in> set ?c. (of_char c :: int) < 0x80"
    by simp
  then have ad: "ascii_digits ?c = ?c"
    by (rule ascii_digits_ascii)
  have "is_digit (CHR ''1'')"
    by (simp add: is_digit_def)
  then have d: "list_all is_digit ?ds"
    by (simp add: list_all_iff)
  have "?ds \<noteq> []"
    by simp
  moreover note d
  moreover have "?c = [] @ ''HITL-'' @ ?ds @ []"
    by simp
  moreover have "([] :: string) = [] \<or> \<not> is_digit (hd [])"
    by simp
  ultimately have "?ds \<in> spec_id_tokens ''HITL-'' ?c"
    by (rule spec_id_tokensI)
  then have t: "?ds \<in> spec_id_tokens ''HITL-'' (ascii_digits ?c)"
    by (simp only: ad)
  have l: "max_str_digits < length ?ds"
    by (simp add: max_str_digits_def)
  show ?thesis
    using r t l by (rule get_next_hitl_id_long)
qed

section \<open>Properties of the waiver classification\<close>

lemma date_ge_iff: "date_ge a b \<longleftrightarrow> \<not> date_lt a b"
  by (auto simp: date_ge_def date_lt_def)

lemma check_expired_loop_mem:
  "check_expired_loop s d today names = Inr expired \<Longrightarrow>
   n \<in> ew_file ` set expired \<longleftrightarrow>
     n \<in> set names \<and>
     (\<exists>content g e. read_text s (d @ [n]) = Inr content \<and> search_expiration content = Some g \<and>
        strptime_ymd g = Inr e \<and> date_lt e today)"
proof (induction names arbitrary: expired)
  case Nil
  then show ?case by auto
next
  case (Cons name rest)
  from Cons.prems obtain content where c: "read_text s (d @ [name]) = Inr content"
    by (auto split: sum.splits)
  show ?case
  proof (cases "search_expiration content")
    case None
    with Cons.prems c have "check_expired_loop s d today rest = Inr expired"
      by simp
    from Cons.IH [OF this] show ?thesis
      using c None by auto
  next
    case (Some g)
    with Cons.prems c obtain e where e: "strptime_ymd g = Inr e"
      by (auto split: sum.splits)
    with Cons.prems c Some obtain ex where
      ex: "check_expired_loop s d today rest = Inr ex"
      and r: "expired = (if date_lt e today
                then \<lparr>ew_file = name, ew_expiration = g, ew_content = content\<rparr> # ex else ex)"
      by (auto split: sum.splits)
    from Cons.IH [OF ex] show ?thesis
      using c Some e r by (cases "date_lt e today") auto
  qed
qed

lemma list_active_loop_mem:
  "list_active_loop s d today names = Inr active \<Longrightarrow>
   n \<in> aw_file ` set active \<longleftrightarrow>
     n \<in> set names \<and>
     (\<exists>content g e. read_text s (d @ [n]) = Inr content \<and> search_expiration content = Some g \<and>
        strptime_ymd g = Inr e \<and> date_ge e today)"
proof (induction names arbitrary: active)
  case Nil
  then show ?case by auto
next
  case (Cons name rest)
  from Cons.prems obtain content where c: "read_text s (d @ [name]) = Inr content"
    by (auto split: sum.splits)
  show ?case
  proof (cases "search_expiration content")
    case None
    with Cons.prems c have "list_active_loop s d today rest = Inr active"
      by simp
    from Cons.IH [OF this] show ?thesis
      using c None by auto
  next
    case (Some g)
    with Cons.prems c obtain e where e: "strptime_ymd g = Inr e"
      by (auto split: sum.splits)
    with Cons.prems c Some obtain ac where
      ac: "list_active_loop s d today rest = Inr ac"
      and r: "active = (if date_ge e today
                then \<lparr>aw_file = name,
                      aw_waives = (case search_field ''**Waives**:'' content of
                                     Some w \<Rightarrow> w | None \<Rightarrow> ''Unknown''),
                      aw_owner = (case search_field ''**Owner**:'' content of
                                    Some w \<Rightarrow> w | None \<Rightarrow> ''Unknown''),
                      aw_expiration = g\<rparr> # ac else ac)"
      by (auto split: sum.splits)
    from Cons.IH [OF ac] show ?thesis
      using c Some e r by (cases "date_ge e today") auto
  qed
qed

text \<open>
  C6.  In a directory of waiver files (well-formed UTF-8), for a waiver file whose
  expiration date \<open>e\<close> parses, \<open>check-expired\<close> lists the file exactly when \<open>e\<close> is
  strictly before the reference date, and \<open>list\<close> lists it exactly when it is not: the
  two classifications are complementary, and a waiver that expires on the reference
  date is active.  The tests \<open>>=\<close> and \<open><\<close> on dates are each other's negation.
\<close>

theorem classify_waiver_strict:
  assumes "check_expired_waivers s d today = Inr expired"
    and "list_active_waivers s d today = Inr active"
    and "name \<in> set (glob_waivers s d)"
    and "read_text s (d @ [name]) = Inr content"
    and "search_expiration content = Some g"
    and "strptime_ymd g = Inr e"
    and "\<forall>n \<in> set (glob_waivers s d). \<forall>c. read_text s (d @ [n]) = Inr c \<longrightarrow> utf8_ok c"
  shows "(name \<in> ew_file ` set expired \<longleftrightarrow> date_lt e today) \<and>
         (name \<in> aw_file ` set active \<longleftrightarrow> \<not> date_lt e today) \<and>
         (name \<in> aw_file ` set active \<longleftrightarrow> name \<notin> ew_file ` set expired) \<and>
         (e = today \<longrightarrow> name \<in> aw_file ` set active) \<and>
         (date_ge e today \<longleftrightarrow> \<not> date_lt e today)"
proof -
  have "glob_waivers s d \<noteq> []"
    using assms(3) by auto
  then have "is_dir s d"
    by (auto simp: glob_waivers_def split: if_splits)
  then have ex: "path_exists s d"
    by (simp add: path_exists_def)
  have a: "check_expired_loop s d today (glob_waivers s d) = Inr expired"
    using assms(1) ex by (simp add: check_expired_waivers_def)
  have b: "list_active_loop s d today (glob_waivers s d) = Inr active"
    using assms(2) ex by (simp add: list_active_waivers_def)
  have x: "name \<in> ew_file ` set expired \<longleftrightarrow> date_lt e today"
    using check_expired_loop_mem [OF a, of name] assms(3-6) by auto
  have y: "name \<in> aw_file ` set active \<longleftrightarrow> \<not> date_lt e today"
    using list_active_loop_mem [OF b, of name] assms(3-6) by (auto simp: date_ge_iff)
  have z: "\<not> date_lt today today"
    by (simp add: date_lt_def)
  show ?thesis
    using x y z by (auto simp: date_ge_iff)
qed


text \<open>
  An instance, with the reference date 2025-01-10: the waiver that expires on
  2025-01-10 is active, the one that expired on 2025-01-09 is expired.
\<close>

theorem classify_waiver_strict_witness:
  "check_expired_waivers
     \<lparr>files = [([''waivers'', ''WAIVER-0001.md''], ''**Waives**: lint\<newline>**Owner**: ana\<newline>**Expiration**: 2025-01-10  \<newline>''),
        ([''waivers'', ''WAIVER-0002.md''], ''**Expiration**: 2025-01-09\<newline>'')],
      dirs = [[''waivers'']]\<rparr> [''waivers''] \<lparr>year = 2025, month = 1, day = 10\<rparr> = Inr [\<lparr>ew_file = ''WAIVER-0002.md'', ew_expiration = ''2025-01-09'', ew_content = ''**Expiration**: 2025-01-09\<newline>''\<rparr>] \<and>
   list_active_waivers
     \<lparr>files = [([''waivers'', ''WAIVER-0001.md''], ''**Waives**: lint\<newline>**Owner**: ana\<newline>**Expiration**: 2025-01-10  \<newline>''),
        ([''waivers'', ''WAIVER-0002.md''], ''**Expiration**: 2025-01-09\<newline>'')],
      dirs = [[''waivers'']]\<rparr> [''waivers''] \<lparr>year = 2025, month = 1, day = 10\<rparr> = Inr [\<lparr>aw_file = ''WAIVER-0001.md'', aw_waives = ''lint'', aw_owner = ''ana'', aw_expiration = ''2025-01-10''\<rparr>] \<and>
   ''WAIVER-0001.md'' \<in> aw_file ` set [\<lparr>aw_file = ''WAIVER-0001.md'', aw_waives = ''lint'', aw_owner = ''ana'', aw_expiration = ''2025-01-10''\<rparr>] \<and>
   ''WAIVER-0001.md'' \<notin> ew_file ` set [\<lparr>ew_file = ''WAIVER-0002.md'', ew_expiration = ''2025-01-09'', ew_content = ''**Expiration**: 2025-01-09\<newline>''\<rparr>] \<and>
   ''WAIVER-0002.md'' \<in> ew_file ` set [\<lparr>ew_file = ''WAIVER-0002.md'', ew_expiration = ''2025-01-09'', ew_content = ''**Expiration**: 2025-01-09\<newline>''\<rparr>] \<and>
   ''WAIVER-0002.md'' \<notin> aw_file ` set [\<lparr>aw_file = ''WAIVER-0001.md'', aw_waives = ''lint'', aw_owner = ''ana'', aw_expiration = ''2025-01-10''\<rparr>]"
proof -
  let ?s = "\<lparr>files = [([''waivers'', ''WAIVER-0001.md''], ''**Waives**: lint\<newline>**Owner**: ana\<newline>**Expiration**: 2025-01-10  \<newline>''),
        ([''waivers'', ''WAIVER-0002.md''], ''**Expiration**: 2025-01-09\<newline>'')],
      dirs = [[''waivers'']]\<rparr>"
  let ?t = "\<lparr>year = 2025, month = 1, day = 10\<rparr>"
  let ?ex = "[\<lparr>ew_file = ''WAIVER-0002.md'', ew_expiration = ''2025-01-09'', ew_content = ''**Expiration**: 2025-01-09\<newline>''\<rparr>]"
  let ?ac = "[\<lparr>aw_file = ''WAIVER-0001.md'', aw_waives = ''lint'', aw_owner = ''ana'', aw_expiration = ''2025-01-10''\<rparr>]"
  have a: "check_expired_waivers ?s [''waivers''] ?t = Inr ?ex"
    by code_simp
  have b: "list_active_waivers ?s [''waivers''] ?t = Inr ?ac"
    by code_simp
  have g: "''WAIVER-0001.md'' \<in> set (glob_waivers ?s [''waivers''])"
    "''WAIVER-0002.md'' \<in> set (glob_waivers ?s [''waivers''])"
    by code_simp+
  have r1: "read_text ?s ([''waivers''] @ [''WAIVER-0001.md'']) = Inr ''**Waives**: lint\<newline>**Owner**: ana\<newline>**Expiration**: 2025-01-10  \<newline>''"
    and r2: "read_text ?s ([''waivers''] @ [''WAIVER-0002.md'']) = Inr ''**Expiration**: 2025-01-09\<newline>''"
    by code_simp+
  have e1: "search_expiration ''**Waives**: lint\<newline>**Owner**: ana\<newline>**Expiration**: 2025-01-10  \<newline>'' = Some ''2025-01-10''"
    and e2: "search_expiration ''**Expiration**: 2025-01-09\<newline>'' = Some ''2025-01-09''"
    by code_simp+
  have p1: "strptime_ymd ''2025-01-10'' = Inr ?t"
    and p2: "strptime_ymd ''2025-01-09'' = Inr \<lparr>year = 2025, month = 1, day = 9\<rparr>"
    by code_simp+
  have lt: "date_lt \<lparr>year = 2025, month = 1, day = 9\<rparr> ?t"
    by code_simp
  have gl: "glob_waivers ?s [''waivers''] = [''WAIVER-0001.md'', ''WAIVER-0002.md'']"
    by code_simp
  have "utf8_ok ''**Waives**: lint\<newline>**Owner**: ana\<newline>**Expiration**: 2025-01-10  \<newline>''"
    and "utf8_ok ''**Expiration**: 2025-01-09\<newline>''"
    by code_simp+
  then have asc: "\<forall>n \<in> set (glob_waivers ?s [''waivers'']).
      \<forall>c. read_text ?s ([''waivers''] @ [n]) = Inr c \<longrightarrow> utf8_ok c"
    unfolding gl using r1 r2 by auto
  from classify_waiver_strict [OF a b g(1) r1 e1 p1 asc]
  have w1: "''WAIVER-0001.md'' \<in> aw_file ` set ?ac" "''WAIVER-0001.md'' \<notin> ew_file ` set ?ex"
    by blast+
  from classify_waiver_strict [OF a b g(2) r2 e2 p2 asc] lt
  have w2: "''WAIVER-0002.md'' \<in> ew_file ` set ?ex" "''WAIVER-0002.md'' \<notin> aw_file ` set ?ac"
    by blast+
  from a b w1 w2 show ?thesis
    by (intro conjI)
qed

section \<open>Validation before promotion\<close>





section \<open>Properties of lines and of the file system\<close>













section \<open>Properties of moving a record\<close>















section \<open>Claims about moving a record\<close>




section \<open>Properties of dry runs\<close>



















section \<open>Claims about dry runs\<close>




section \<open>Properties of the index table\<close>

lemma match_line_table_line:
  assumes "spec_table_line r"
  shows "match_line (r @ NL # t) = Some (r @ [NL], t)"
proof -
  from assms obtain b where r: "r = CHR ''|'' # b" and b: "b \<noteq> []" "NL \<notin> set b"
    by (auto simp: spec_table_line_def split: list.splits)
  have tw: "takeWhile (\<lambda>x. x \<noteq> NL) (b @ NL # t) = b"
    using b(2) by (induction b) auto
  have dw: "dropWhile (\<lambda>x. x \<noteq> NL) (b @ NL # t) = NL # t"
    using b(2) by (induction b) auto
  show ?thesis
    by (simp add: match_line_def r tw dw b(1))
qed

lemma match_rows_no_bar:
  assumes "post = [] \<or> hd post \<noteq> CHR ''|''"
  shows "match_rows post = []"
  using assms by (cases post) (simp_all add: match_rows.simps Let_def)

lemma match_rows_table_text:
  assumes "\<forall>r \<in> set rows. spec_table_line r" and "post = [] \<or> hd post \<noteq> CHR ''|''"
  shows "match_rows (spec_table_text rows @ post) = spec_table_text rows"
  using assms(1)
proof (induction rows)
  case Nil
  then show ?case
    by (simp add: spec_table_text_def match_rows_no_bar [OF assms(2)])
next
  case (Cons r rows)
  then have "spec_table_line r" and ih: "match_rows (spec_table_text rows @ post) = spec_table_text rows"
    by simp_all
  then obtain b where r: "r = CHR ''|'' # b" and b: "b \<noteq> []" "NL \<notin> set b"
    by (auto simp: spec_table_line_def split: list.splits)
  let ?t = "spec_table_text rows @ post"
  have tw: "takeWhile (\<lambda>x. x \<noteq> NL) (b @ NL # ?t) = b"
    using b(2) by (induction b) auto
  have dw: "dropWhile (\<lambda>x. x \<noteq> NL) (b @ NL # ?t) = NL # ?t"
    using b(2) by (induction b) auto
  have "match_rows (CHR ''|'' # b @ NL # ?t) = CHR ''|'' # b @ [NL] @ match_rows ?t"
    by (subst match_rows.simps) (simp add: tw dw b(1))
  then show ?case
    by (simp add: spec_table_text_def r ih [unfolded spec_table_text_def])
qed

lemma match_active_table_at_table:
  assumes "spec_table_line header" and "spec_table_line separator"
  shows "match_active_table (''### Active'' @ NL # header @ NL # separator @ NL # body) =
         Some (''### Active'' @ NL # header @ NL # separator @ [NL], match_rows body)"
proof -
  from assms(1) obtain h where h: "header = CHR ''|'' # h"
    by (auto simp: spec_table_line_def split: list.splits)
  have sp: "is_space NL" "\<not> is_space (CHR ''|'')"
    by (simp_all add: is_space_def)
  have ws: "takeWhile is_space (NL # header @ NL # separator @ NL # body) = [NL]"
    by (simp add: h sp)
  have dw: "dropWhile is_space (NL # header @ NL # separator @ NL # body) =
            header @ NL # separator @ NL # body"
    by (simp add: h sp)
  have m1: "match_line (header @ NL # separator @ NL # body) =
            Some (header @ [NL], separator @ NL # body)"
    by (rule match_line_table_line [OF assms(1)])
  have m2: "match_line (separator @ NL # body) = Some (separator @ [NL], body)"
    by (rule match_line_table_line [OF assms(2)])
  define s where "s = ''### Active'' @ NL # header @ NL # separator @ NL # body"
  have dr: "drop (length ''### Active'') s = NL # header @ NL # separator @ NL # body"
    by (simp add: s_def)
  have pre: "startswith s ''### Active''"
    unfolding startswith_def s_def by (rule prefixI) simp
  have "match_active_table s =
        Some (''### Active'' @ NL # header @ NL # separator @ [NL], match_rows body)"
    unfolding match_active_table_def
    apply (simp only: pre dr if_True Let_def)
    apply (simp only: ws dw m1 m2 option.case prod.case)
    apply simp
    done
  then show ?thesis
    unfolding s_def .
qed

lemma match_active_table_no_marker:
  "\<not> startswith s ''### Active'' \<Longrightarrow> match_active_table s = None"
  by (simp add: match_active_table_def)

lemma parse_template_plain:
  "CHR 0x5C \<notin> set t \<Longrightarrow> parse_template t = Inr (map (\<lambda>c. Literal [c]) t)"
proof (induction t)
  case Nil
  show ?case
    by (simp add: parse_template.simps)
next
  case (Cons c t)
  then have "c \<noteq> CHR 0x5C" and "parse_template t = Inr (map (\<lambda>c. Literal [c]) t)"
    by auto
  then show ?case
    by (subst parse_template.simps) (simp add: add_item_def)
qed

lemma expand_template_plain:
  "expand_template (map (\<lambda>c. Literal [c]) t) g1 g2 = t"
  by (induction t) (simp_all add: expand_template_def)

lemma re_search_active_skip:
  assumes "\<forall>k < length pre. \<not> startswith (drop k (pre @ s)) ''### Active''"
    and "match_active_table s = Some m"
  shows "re_search_active (pre @ s) = Some m"
  using assms(1)
proof (induction pre)
  case Nil
  from assms(2) have "s \<noteq> []"
    by (auto simp: match_active_table_def startswith_def split: if_splits)
  then obtain c cs where "s = c # cs"
    by (cases s) auto
  with assms(2) show ?case
    by simp
next
  case (Cons c pre)
  from Cons.prems have "\<not> startswith (drop 0 ((c # pre) @ s)) ''### Active''"
    by blast
  then have n: "match_active_table (c # pre @ s) = None"
    by (simp add: match_active_table_no_marker)
  have "\<forall>k < length pre. \<not> startswith (drop k (pre @ s)) ''### Active''"
  proof (intro allI impI)
    fix k assume "k < length pre"
    then have "Suc k < length (c # pre)"
      by simp
    with Cons.prems have "\<not> startswith (drop (Suc k) ((c # pre) @ s)) ''### Active''"
      by blast
    then show "\<not> startswith (drop k (pre @ s)) ''### Active''"
      by simp
  qed
  with Cons.IH n show ?case
    by simp
qed

lemma re_sub_active_skip:
  assumes "\<forall>k < length pre. \<not> startswith (drop k (pre @ s)) ''### Active''"
  shows "re_sub_active items (pre @ s) = pre @ re_sub_active items s"
  using assms
proof (induction pre)
  case Nil
  show ?case
    by simp
next
  case (Cons c pre)
  from Cons.prems have "\<not> startswith (drop 0 ((c # pre) @ s)) ''### Active''"
    by blast
  then have n: "match_active_table (c # pre @ s) = None"
    by (simp add: match_active_table_no_marker)
  have "\<forall>k < length pre. \<not> startswith (drop k (pre @ s)) ''### Active''"
  proof (intro allI impI)
    fix k assume "k < length pre"
    then have "Suc k < length (c # pre)"
      by simp
    with Cons.prems have "\<not> startswith (drop (Suc k) ((c # pre) @ s)) ''### Active''"
      by blast
    then show "\<not> startswith (drop k (pre @ s)) ''### Active''"
      by simp
  qed
  with Cons.IH have ih: "re_sub_active items (pre @ s) = pre @ re_sub_active items s"
    by simp
  have "re_sub_active items (c # pre @ s) = c # re_sub_active items (pre @ s)"
    by (subst re_sub_active.simps) (simp add: n)
  then show ?case
    by (simp add: ih)
qed

lemma re_sub_active_no_marker:
  assumes "\<not> str_in ''### Active'' post"
  shows "re_sub_active items post = post"
proof -
  have "\<forall>k < length post. \<not> startswith (drop k (post @ [])) ''### Active''"
  proof (intro allI impI notI)
    fix k assume "startswith (drop k (post @ [])) ''### Active''"
    then obtain z where "drop k post = ''### Active'' @ z"
      by (auto simp: startswith_def prefix_def)
    then have "post = take k post @ ''### Active'' @ z"
      by (metis append_take_drop_id)
    then have "sublist ''### Active'' post"
      unfolding sublist_def by blast
    with assms show False
      by (simp add: str_in_def)
  qed
  then have "re_sub_active items (post @ []) = post @ re_sub_active items []"
    by (rule re_sub_active_skip)
  moreover have "re_sub_active items [] = []"
    by (subst re_sub_active.simps) (simp add: match_active_table_def startswith_def)
  ultimately show ?thesis
    by simp
qed

lemma re_sub_active_at_match:
  assumes "match_active_table (g1 @ g2 @ post) = Some (g1, g2)"
  shows "re_sub_active items (g1 @ g2 @ post) =
         expand_template items g1 g2 @ re_sub_active items post"
  by (subst re_sub_active.simps) (simp add: assms)

text \<open>
  Where the claim holds.  Let the index hold the heading \<open>### Active\<close>, not found
  earlier in the text, a newline, and a table of a header line, a separator line and
  data rows, each line ended by a newline; let the text after the table not start with
  a bar and not hold the heading again; and let no backslash stand in the table or in
  the new row.  Then \<open>add_to_index\<close> writes the index with the new row added after the
  rows of the table, and everything else as it was.
\<close>

lemma add_to_index_appends_row:
  fixes header separator :: string and rows :: "string list"
  defines "new_row \<equiv> \<lambda>hitl_id category summary filepath.
             ''|'' @ hitl_id @ ''|'' @ category @ ''|Pending|'' @ summary @ ''|'' @ filepath @ ''|''"
  assumes rd: "read_text s p =
                 Inr (pre @ ''### Active'' @ [NL] @ spec_table_text (header # separator # rows) @ post)"
    and first: "\<forall>k < length pre. \<not> startswith
                  (drop k (pre @ ''### Active'' @ [NL] @ spec_table_text (header # separator # rows) @ post))
                  ''### Active''"
    and lines: "\<forall>r \<in> set (header # separator # rows). spec_table_line r"
    and after: "post = [] \<or> hd post \<noteq> CHR ''|''"
    and once: "\<not> str_in ''### Active'' post"
    and plain: "\<forall>r \<in> set (header # separator # rows). CHR 0x5C \<notin> set r"
      "CHR 0x5C \<notin> set (new_row hitl_id category summary filepath)"
  shows "add_to_index s p hitl_id category summary filepath =
         write_text s p
           (pre @ ''### Active'' @ [NL] @
            spec_table_text (header # separator # rows @ [new_row hitl_id category summary filepath]) @
            post)"
proof -
  let ?M = "''### Active''"
  let ?g1 = "?M @ NL # header @ NL # separator @ [NL]"
  let ?g2 = "spec_table_text rows"
  let ?content = "pre @ ?M @ [NL] @ spec_table_text (header # separator # rows) @ post"
  let ?nr = "new_row hitl_id category summary filepath @ [NL]"
  have c: "?content = pre @ ?g1 @ ?g2 @ post"
    by (simp add: spec_table_text_def)
  have hs: "spec_table_line header" "spec_table_line separator"
    and rs: "\<forall>r \<in> set rows. spec_table_line r"
    using lines by simp_all
  have g2: "match_rows (?g2 @ post) = ?g2"
    by (rule match_rows_table_text [OF rs after])
  have "match_active_table (?M @ NL # header @ NL # separator @ NL # (?g2 @ post)) =
        Some (?g1, match_rows (?g2 @ post))"
    by (rule match_active_table_at_table [OF hs])
  then have m: "match_active_table (?g1 @ ?g2 @ post) = Some (?g1, ?g2)"
    by (simp add: g2)
  have first': "\<forall>k < length pre. \<not> startswith (drop k (pre @ ?g1 @ ?g2 @ post)) ?M"
    using first unfolding c .
  have search: "re_search_active ?content = Some (?g1, ?g2)"
    unfolding c by (rule re_search_active_skip [OF first' m])
  have "CHR 0x5C \<notin> set ?g2"
    using plain(1) by (auto simp: spec_table_text_def)
  moreover have "CHR 0x5C \<notin> set ?g1"
    using plain(1) by auto
  moreover have "CHR 0x5C \<notin> set ?nr"
    using plain(2) by simp
  ultimately have "CHR 0x5C \<notin> set (?g1 @ ?g2 @ ?nr)"
    by simp
  then have parse: "parse_template (?g1 @ ?g2 @ ?nr) =
                    Inr (map (\<lambda>c. Literal [c]) (?g1 @ ?g2 @ ?nr))"
    by (rule parse_template_plain)
  have sub: "re_sub_active (map (\<lambda>c. Literal [c]) (?g1 @ ?g2 @ ?nr)) ?content =
             pre @ (?g1 @ ?g2 @ ?nr) @ post"
    unfolding c
    by (simp only: re_sub_active_skip [OF first'] re_sub_active_at_match [OF m]
          expand_template_plain re_sub_active_no_marker [OF once])
  have ex: "path_exists s p"
    by (rule read_text_exists [OF rd])
  have nr: "''|'' @ hitl_id @ ''|'' @ category @ ''|Pending|'' @ summary @ ''|'' @ filepath @ ''|'' @ [NL] = ?nr"
    by (simp add: new_row_def)
  have eq: "pre @ (?g1 @ ?g2 @ ?nr) @ post =
        pre @ ?M @ [NL] @
        spec_table_text (header # separator # rows @ [new_row hitl_id category summary filepath]) @ post"
    by (simp add: spec_table_text_def)
  have "add_to_index s p hitl_id category summary filepath =
        write_text s p (pre @ (?g1 @ ?g2 @ ?nr) @ post)"
    unfolding add_to_index_def
    by (simp only: ex rd search nr parse sub Let_def not_True_eq_False if_False
          sum.case option.case prod.case)
  then show ?thesis
    by (simp only: eq)
qed

text \<open>An instance: an index with a heading before the table and a section after it.\<close>

lemma add_to_index_appends_row_example:
  "add_to_index
     \<lparr>files = [([''HITL.md''],
         ''## Index tables\<newline>### Active\<newline>|ID|Category|Status|Summary|Filepath|\<newline>|---|---|---|---|---|\<newline>|HITL-0001|Risk|Pending|s|p|\<newline>\<newline>### Archived\<newline>'')],
      dirs = []\<rparr>
     [''HITL.md''] ''HITL-0002'' ''Risk'' ''t'' ''q'' =
   Inr \<lparr>files = [([''HITL.md''],
         ''## Index tables\<newline>### Active\<newline>|ID|Category|Status|Summary|Filepath|\<newline>|---|---|---|---|---|\<newline>|HITL-0001|Risk|Pending|s|p|\<newline>|HITL-0002|Risk|Pending|t|q|\<newline>\<newline>### Archived\<newline>'')],
      dirs = []\<rparr>"
proof -
  let ?s = "\<lparr>files = [([''HITL.md''],
         ''## Index tables\<newline>### Active\<newline>|ID|Category|Status|Summary|Filepath|\<newline>|---|---|---|---|---|\<newline>|HITL-0001|Risk|Pending|s|p|\<newline>\<newline>### Archived\<newline>'')],
      dirs = []\<rparr>"
  let ?pre = "''## Index tables\<newline>''"
  let ?header = "''|ID|Category|Status|Summary|Filepath|''"
  let ?separator = "''|---|---|---|---|---|''"
  let ?rows = "[''|HITL-0001|Risk|Pending|s|p|'']"
  let ?post = "''\<newline>### Archived\<newline>''"
  let ?content = "?pre @ ''### Active'' @ [NL] @ spec_table_text (?header # ?separator # ?rows) @ ?post"
  have rd: "read_text ?s [''HITL.md''] = Inr ?content"
    by code_simp
  have "\<forall>k \<in> set [0..<length ?pre]. \<not> startswith (drop k ?content) ''### Active''"
    by code_simp
  then have first: "\<forall>k < length ?pre. \<not> startswith (drop k ?content) ''### Active''"
    by (metis atLeastLessThan_iff set_upt zero_le)
  have lines: "\<forall>r \<in> set (?header # ?separator # ?rows). spec_table_line r"
    by code_simp
  have after: "?post = [] \<or> hd ?post \<noteq> CHR ''|''"
    by simp
  have once: "\<not> str_in ''### Active'' ?post"
    by code_simp
  have plain: "\<forall>r \<in> set (?header # ?separator # ?rows). CHR 0x5C \<notin> set r"
    "CHR 0x5C \<notin> set (''|'' @ ''HITL-0002'' @ ''|'' @ ''Risk'' @ ''|Pending|'' @ ''t'' @ ''|'' @ ''q'' @ ''|'')"
    by code_simp+
  note add_to_index_appends_row [OF rd first lines after once plain]
  moreover have "write_text ?s [''HITL.md'']
      (?pre @ ''### Active'' @ [NL] @
       spec_table_text (?header # ?separator # ?rows @
         [''|'' @ ''HITL-0002'' @ ''|'' @ ''Risk'' @ ''|Pending|'' @ ''t'' @ ''|'' @ ''q'' @ ''|'']) @ ?post) =
     Inr \<lparr>files = [([''HITL.md''],
         ''## Index tables\<newline>### Active\<newline>|ID|Category|Status|Summary|Filepath|\<newline>|---|---|---|---|---|\<newline>|HITL-0001|Risk|Pending|s|p|\<newline>|HITL-0002|Risk|Pending|t|q|\<newline>\<newline>### Archived\<newline>'')],
      dirs = []\<rparr>"
    by code_simp
  ultimately show ?thesis
    by (rule trans)
qed


section \<open>Claims about the index table\<close>

text \<open>
  C4, AppendRow on a table with N data rows gives N+1 data rows with the new row last
  and leaves the header, the separator, every row there was and the text outside the
  table as they were: \<open>add_to_index\<close> does not.  Its pattern takes a last row that has
  no newline at its end (\<open>\n?\<close>), and the replacement puts the new row right after the
  rows found; so on an index that ends with such a row, the new row is joined to the
  last row: the table still has one data row, and that row is no longer the row there
  was.  And the replacement is read as a template: in an index whose table ends with a
  newline, a row that holds \<open>\n\<close> (a backslash and an n) is written back with a newline
  in its place, so the row there was is split in two lines.  Where the table ends with
  a newline and holds no backslash, the row is added as claimed
  (\<open>add_to_index_appends_row\<close>).
\<close>

theorem add_to_index_corrupts_rows:
  "add_to_index
     \<lparr>files = [([''HITL.md''],
         ''### Active\<newline>|ID|Category|Status|Summary|Filepath|\<newline>|---|---|---|---|---|\<newline>|HITL-0001|Risk|Pending|s|p|'')],
      dirs = []\<rparr>
     [''HITL.md''] ''HITL-0002'' ''Risk'' ''t'' ''q'' =
   Inr \<lparr>files = [([''HITL.md''],
         ''### Active\<newline>|ID|Category|Status|Summary|Filepath|\<newline>|---|---|---|---|---|\<newline>|HITL-0001|Risk|Pending|s|p||HITL-0002|Risk|Pending|t|q|\<newline>'')],
      dirs = []\<rparr> \<and>
   add_to_index
     \<lparr>files = [([''HITL.md''],
         ''### Active\<newline>|ID|Category|Status|Summary|Filepath|\<newline>|---|---|---|---|---|\<newline>|HITL-0001|Risk|Pending|see C:'' @
         [CHR 0x5C] @ ''new|p|\<newline>'')],
      dirs = []\<rparr>
     [''HITL.md''] ''HITL-0002'' ''Risk'' ''t'' ''q'' =
   Inr \<lparr>files = [([''HITL.md''],
         ''### Active\<newline>|ID|Category|Status|Summary|Filepath|\<newline>|---|---|---|---|---|\<newline>|HITL-0001|Risk|Pending|see C:\<newline>ew|p|\<newline>|HITL-0002|Risk|Pending|t|q|\<newline>'')],
      dirs = []\<rparr>"
  by code_simp

end
